theory Spec2Isabelle
  imports Main "HOL-Library.Sublist" "HOL-Library.Multiset" "HOL-Library.Word"
begin

section \<open>Strings\<close>

text \<open>
  A Go string is a sequence of bytes; \<^typ>\<open>string\<close> is a list of 8-bit characters, so
  \<^term>\<open>length s\<close> is Go's \<open>len(s)\<close> and \<^term>\<open>take n s\<close> is \<open>s[0:n]\<close> when \<open>n \<le> len(s)\<close>.
  The functions of Go's \<open>strings\<close> package that \<open>main.go\<close> calls are written out below.
\<close>

definition HasPrefix :: "string \<Rightarrow> string \<Rightarrow> bool" where
  "HasPrefix s pre = (length pre \<le> length s \<and> take (length pre) s = pre)"

definition TrimPrefix :: "string \<Rightarrow> string \<Rightarrow> string" where
  "TrimPrefix s pre = (if HasPrefix s pre then drop (length pre) s else s)"

text \<open>\<open>strings.IndexByte\<close>: the first position of a byte, \<open>None\<close> for Go's \<open>-1\<close>.\<close>

fun IndexByte :: "string \<Rightarrow> char \<Rightarrow> nat option" where
  "IndexByte [] c = None"
| "IndexByte (x # s) c = (if x = c then Some 0 else map_option Suc (IndexByte s c))"

text \<open>
  \<open>strings.Split(s, sep)\<close> for a separator of one byte, which is what both call sites pass
  (\<open>"/"\<close> and \<open>"\n"\<close>): cut at the first separator, go on with the rest, and end with what
  is left. The empty string splits into one empty part.
\<close>

function Split :: "string \<Rightarrow> char \<Rightarrow> string list" where
  "Split s c = (case IndexByte s c of
       None \<Rightarrow> [s]
     | Some m \<Rightarrow> take m s # Split (drop (m + 1) s) c)"
  by pat_completeness auto

termination Split
proof (relation "measure (\<lambda>(s, c). length s)")
  fix s :: string and c m
  assume "IndexByte s c = Some m"
  then have "m < length s"
    by (induction s arbitrary: m) (auto split: if_splits)
  then show "((drop (m + 1) s, c), (s, c)) \<in> measure (\<lambda>(s, c). length s)"
    by simp
qed simp

declare Split.simps [simp del]

fun Join :: "string list \<Rightarrow> string \<Rightarrow> string" where
  "Join [] sep = []"
| "Join [x] sep = x"
| "Join (x # y # ys) sep = x @ sep @ Join (y # ys) sep"

text \<open>\<open>strings.Contains(s, substr)\<close>: some position of \<open>s\<close> starts with \<open>substr\<close>.\<close>

fun Contains :: "string \<Rightarrow> string \<Rightarrow> bool" where
  "Contains [] substr = HasPrefix [] substr"
| "Contains (x # s) substr = (HasPrefix (x # s) substr \<or> Contains s substr)"

text \<open>
  \<open>strings.TrimSpace(s)\<close> removes the leading and the trailing white space of \<open>s\<close>, as
  \<open>unicode.IsSpace\<close> defines it on the runes that UTF-8 decoding reads from either end.
  A rune read at the start (or the end) of a byte sequence is white space exactly when the
  sequence starts (or ends) with the UTF-8 encoding of a white-space code point; these
  encodings are listed in \<open>spaceRunes\<close>: U+0009 to U+000D, U+0020, U+0085, U+00A0, U+1680,
  U+2000 to U+200A, U+2028, U+2029, U+202F, U+205F and U+3000. A byte that is no valid
  encoding decodes to U+FFFD, which is not white space.
\<close>

definition spaceRunes :: "string list" where
  "spaceRunes =
     [[CHR 0x09], [CHR 0x0A], [CHR 0x0B], [CHR 0x0C], [CHR 0x0D], [CHR 0x20],
      [CHR 0xC2, CHR 0x85], [CHR 0xC2, CHR 0xA0],
      [CHR 0xE1, CHR 0x9A, CHR 0x80],
      [CHR 0xE2, CHR 0x80, CHR 0x80], [CHR 0xE2, CHR 0x80, CHR 0x81],
      [CHR 0xE2, CHR 0x80, CHR 0x82], [CHR 0xE2, CHR 0x80, CHR 0x83],
      [CHR 0xE2, CHR 0x80, CHR 0x84], [CHR 0xE2, CHR 0x80, CHR 0x85],
      [CHR 0xE2, CHR 0x80, CHR 0x86], [CHR 0xE2, CHR 0x80, CHR 0x87],
      [CHR 0xE2, CHR 0x80, CHR 0x88], [CHR 0xE2, CHR 0x80, CHR 0x89],
      [CHR 0xE2, CHR 0x80, CHR 0x8A],
      [CHR 0xE2, CHR 0x80, CHR 0xA8], [CHR 0xE2, CHR 0x80, CHR 0xA9],
      [CHR 0xE2, CHR 0x80, CHR 0xAF],
      [CHR 0xE2, CHR 0x81, CHR 0x9F],
      [CHR 0xE3, CHR 0x80, CHR 0x80]]"

text \<open>The white-space rune that \<open>s\<close> starts with, and the one it ends with.\<close>

definition leadingSpace :: "string \<Rightarrow> string option" where
  "leadingSpace s = find (\<lambda>q. prefix q s) spaceRunes"

definition trailingSpace :: "string \<Rightarrow> string option" where
  "trailingSpace s = find (\<lambda>q. suffix q s) spaceRunes"

function TrimLeftSpace :: "string \<Rightarrow> string" where
  "TrimLeftSpace s = (case leadingSpace s of
       None \<Rightarrow> s
     | Some q \<Rightarrow> TrimLeftSpace (drop (length q) s))"
  by pat_completeness auto
termination
proof (relation "measure length")
  fix s q :: string
  assume "leadingSpace s = Some q"
  then have "q \<in> set spaceRunes" and "prefix q s"
    by (auto simp: leadingSpace_def find_Some_iff)
  moreover from \<open>q \<in> set spaceRunes\<close> have "q \<noteq> []"
    by (auto simp: spaceRunes_def)
  ultimately have "s \<noteq> []" by auto
  with \<open>q \<noteq> []\<close> show "(drop (length q) s, s) \<in> measure length" by simp
qed simp

function TrimRightSpace :: "string \<Rightarrow> string" where
  "TrimRightSpace s = (case trailingSpace s of
       None \<Rightarrow> s
     | Some q \<Rightarrow> TrimRightSpace (take (length s - length q) s))"
  by pat_completeness auto
termination
proof (relation "measure length")
  fix s q :: string
  assume "trailingSpace s = Some q"
  then have "q \<in> set spaceRunes" and "suffix q s"
    by (auto simp: trailingSpace_def find_Some_iff)
  moreover from \<open>q \<in> set spaceRunes\<close> have "q \<noteq> []"
    by (auto simp: spaceRunes_def)
  ultimately have "s \<noteq> []" by auto
  with \<open>q \<noteq> []\<close> show "(take (length s - length q) s, s) \<in> measure length" by simp
qed simp

declare TrimLeftSpace.simps [simp del] TrimRightSpace.simps [simp del]

definition TrimSpace :: "string \<Rightarrow> string" where
  "TrimSpace s = TrimRightSpace (TrimLeftSpace s)"

section \<open>Data model\<close>

record Tag =
  Name :: string
  Annotations :: "string \<rightharpoonup> string"

record ReferencesSpec =
  Tags :: "Tag list"

record References =
  Spec :: ReferencesSpec

record Release =
  Refs :: References

text \<open>
  A \<open>time.Time\<close> is an instant, here the integer count of nanoseconds since the epoch, and
  \<open>a.After(b)\<close> is \<open>b < a\<close>. A \<open>time.Duration\<close> is an \<open>int64\<close> count of nanoseconds, a word
  of 64 bits that \<open>sint\<close> reads: its negation wraps at \<open>math.MinInt64\<close>. \<open>t.Add(d)\<close> is
  \<open>t + sint d\<close>: a wall-clock reading of \<open>time.Now()\<close> is far from the ends of the seconds
  counter of a \<open>time.Time\<close>, where \<open>Add\<close> would saturate.
\<close>

type_synonym time = int
type_synonym duration = "64 word"

record Change =
  URL :: string
  Message :: string
  Time :: string
  repository :: string
  originalTime :: time

record ProcessOptions =
  Concurrency :: int
  Since :: duration
  BranchName :: string

text \<open>
  What \<open>main.go\<close> reads of a \<open>github.RepositoryCommit\<close>, through getters that return the
  zero value behind a nil pointer: \<open>GetHTMLURL()\<close>, \<open>GetCommit().GetMessage()\<close> and
  \<open>GetCommit().GetCommitter().GetDate()\<close>.
\<close>

record RepositoryCommit =
  HTMLURL :: string
  CommitMessage :: string
  CommitterDate :: time

text \<open>The two fields of \<open>github.CommitsListOptions\<close> that the request sets: \<open>SHA\<close> and \<open>Since\<close>.\<close>

record CommitsListOptions =
  SHA :: string
  ListSince :: time

text \<open>
  Errors are values. \<open>UnableToParse repo\<close> is the error that \<open>getRepositoryChanges\<close>
  makes with \<open>fmt.Errorf\<close>; \<open>External m\<close> is an error that comes from outside \<open>main.go\<close>
  (the GitHub client, the subprocess, the JSON decoder).
\<close>

datatype error = UnableToParse string | External string

text \<open>
  The effects of a run that the claims speak of: a call of \<open>client.Repositories.ListCommits\<close>
  with its arguments, and a line written by \<open>log.Printf("[%s] %v", repository, err)\<close>.
\<close>

datatype event =
  ListCommitsCall string string CommitsListOptions
| LogPrintf string error

text \<open>The GitHub client: \<open>ListCommits\<close> answers with the commits or with an error.\<close>

type_synonym client = "string \<Rightarrow> string \<Rightarrow> CommitsListOptions \<Rightarrow> error + RepositoryCommit list"

section \<open>Repository URL parser\<close>


definition githubPrefix :: string where
  "githubPrefix = ''https://github.com/''"

definition parseRepositoryOrgName :: "string \<Rightarrow> string \<times> string \<times> bool" where
  "parseRepositoryOrgName repo =
     (if \<not> HasPrefix repo githubPrefix then ([], [], False)
      else let parts = Split (TrimPrefix repo githubPrefix) CHR ''/'' in
        if length parts \<noteq> 2 then ([], [], False)
        else (parts ! 0, parts ! 1, True))"


section \<open>Commit fetcher\<close>

text \<open>
  \<open>now\<close> is what \<open>time.Now()\<close> returns when the request is built. The result is the trace of
  effects and the pair \<open>(commits, err)\<close> of the source as a sum.
\<close>

definition getRepositoryChanges ::
  "client \<Rightarrow> time \<Rightarrow> string \<Rightarrow> ProcessOptions \<Rightarrow> event list \<times> (error + RepositoryCommit list)" where
  "getRepositoryChanges client now repo options =
     (case parseRepositoryOrgName repo of
        (organization, name, ok) \<Rightarrow>
          if \<not> ok then ([], Inl (UnableToParse repo))
          else
            let opts = \<lparr>SHA = BranchName options, ListSince = now + sint (- Since options)\<rparr> in
            (case client organization name opts of
               Inl err \<Rightarrow>
                 ([ListCommitsCall organization name opts, LogPrintf repo err], Inr [])
             | Inr commits \<Rightarrow> ([ListCommitsCall organization name opts], Inr commits)))"

section \<open>Commit filter and sanitizer\<close>

definition isMergeCommit :: "RepositoryCommit \<Rightarrow> bool" where
  "isMergeCommit commit = Contains (CommitMessage commit) ''Merge pull request''"

text \<open>The loop of \<open>sanitizeMessage\<close> over the lines, \<open>r\<close> being the lines kept so far.\<close>

fun sanitizeLoop :: "string list \<Rightarrow> string list \<Rightarrow> string list" where
  "sanitizeLoop r [] = r"
| "sanitizeLoop r (l # lines) =
     (if Contains l ''Signed-off-by'' \<or> length (TrimSpace l) = 0 then sanitizeLoop r lines
      else
        let l' = (if length l > 80 then take 80 l @ '' ...'' else l) in
        sanitizeLoop (r @ [TrimSpace l']) lines)"

definition sanitizeMessage :: "string \<Rightarrow> string" where
  "sanitizeMessage msg = Join (sanitizeLoop [] (Split msg CHR 0x0A)) [CHR 0x0A]"

text \<open>
  The claims count characters, the code counts bytes. The characters of a well-formed UTF-8
  text are its code points, and each of them starts with a byte that is no continuation byte
  (\<open>0x80\<close> to \<open>0xBF\<close>); so \<open>characters\<close> counts these bytes.
\<close>

definition characters :: "string \<Rightarrow> nat" where
  "characters s = length (filter (\<lambda>c. \<not> (0x80 \<le> (of_char c :: nat) \<and> (of_char c :: nat) < 0xC0)) s)"

text \<open>A line of 27 characters of three bytes each (\<open>E4 B8 AD\<close>), 81 bytes in all.\<close>

definition wideLine :: string where
  "wideLine = concat (replicate 27 [CHR 0xE4, CHR 0xB8, CHR 0xAD])"

section \<open>Concurrent aggregator\<close>

text \<open>
  What a run of \<open>processRepositories\<close> meets outside \<open>main.go\<close>:
  \<^item> \<open>ListCommits\<close>, the GitHub client;
  \<^item> \<open>Now i\<close>, what \<open>time.Now()\<close> returns to the task of repository \<open>i\<close>;
  \<^item> \<open>humanizeTime\<close>, the rendering \<open>humanize.Time\<close> of a commit date;
  \<^item> \<open>sortSlice lt xs\<close>, the slice that \<open>sort.Slice\<close> leaves, \<open>lt a b\<close> comparing two
    elements (the source's closure compares them through their indices);
  \<^item> \<open>schedule\<close>, the order in which the work pool runs the tasks to their end, by index.
    The tasks append to \<open>changes\<close> under \<open>commitsLock\<close>, so a run is one such order;
    which orders can occur is up to the pool and its \<open>options.Concurrency\<close> workers, and
    the theorems hold for every order.
\<close>

record world =
  ListCommits :: client
  Now :: "nat \<Rightarrow> time"
  humanizeTime :: "time \<Rightarrow> string"
  sortSlice :: "(Change \<Rightarrow> Change \<Rightarrow> bool) \<Rightarrow> Change list \<Rightarrow> Change list"
  schedule :: "nat list"

text \<open>The loop of a task over the commits fetched, \<open>change\<close> being the task's local list.\<close>

fun changeLoop ::
  "(time \<Rightarrow> string) \<Rightarrow> string \<Rightarrow> Change list \<Rightarrow> RepositoryCommit list \<Rightarrow> Change list" where
  "changeLoop humanize repo change [] = change"
| "changeLoop humanize repo change (c # result) =
     (if isMergeCommit c then changeLoop humanize repo change result
      else changeLoop humanize repo
        (change @
         [\<lparr>URL = HTMLURL c,
           Message = sanitizeMessage (CommitMessage c),
           Time = humanize (CommitterDate c),
           repository = repo,
           originalTime = CommitterDate c\<rparr>])
        result)"

text \<open>
  The body of a task up to the lock: the fetch, then the loop. It returns the trace, and the
  task's error or the list that it appends to \<open>changes\<close>.
\<close>

definition task :: "world \<Rightarrow> ProcessOptions \<Rightarrow> string list \<Rightarrow> nat \<Rightarrow> event list \<times> (error + Change list)" where
  "task w options repositories i =
     (case getRepositoryChanges (ListCommits w) (Now w i) (repositories ! i) options of
        (evs, Inl err) \<Rightarrow> (evs, Inl err)
      | (evs, Inr result) \<Rightarrow>
          (evs, Inr (changeLoop (humanizeTime w) (repositories ! i) [] result)))"

text \<open>
  The work pool (\<open>github.com/xxjwxc/gowp/workpool\<close>) is a library: \<open>Do\<close> queues a task,
  the workers run the queued tasks, the first error that a task returns is kept and closes
  the pool, a closed pool drops the tasks it takes from the queue without running them, and
  \<open>Wait\<close> returns the error kept, if any, once the queue is empty. \<open>pool\<close> is the state
  that a run changes: the shared slice \<open>changes\<close>, the pool's error and closed flag, and
  the trace, which keeps the events of one task together. What \<open>processRepositories\<close>
  returns does not depend on whether the tasks after the first error still run: it returns
  that error and drops \<open>changes\<close>.
\<close>

record pool =
  changes :: "Change list"
  poolErr :: "error option"
  closed :: bool
  events :: "event list"

definition runTask :: "world \<Rightarrow> ProcessOptions \<Rightarrow> string list \<Rightarrow> pool \<Rightarrow> nat \<Rightarrow> pool" where
  "runTask w options repositories p i =
     (if closed p then p
      else
        (case task w options repositories i of
           (evs, Inl err) \<Rightarrow>
             p\<lparr>poolErr := (case poolErr p of None \<Rightarrow> Some err | Some e \<Rightarrow> Some e),
               closed := True,
               events := events p @ evs\<rparr>
         | (evs, Inr change) \<Rightarrow>
             p\<lparr>changes := changes p @ change, events := events p @ evs\<rparr>))"

text \<open>
  \<open>processRepositories\<close>: one task for each repository, run in the order of the schedule
  (a permutation of the indices \<open>0 ..< len(repositories)\<close>); then the error of \<open>wp.Wait()\<close>,
  or the slice sorted with the source's closure
  \<open>changes[j].originalTime.After(changes[i].originalTime)\<close>.
\<close>

definition processRepositories ::
  "world \<Rightarrow> ProcessOptions \<Rightarrow> string list \<Rightarrow> event list \<times> (error + Change list)" where
  "processRepositories w options repositories =
     (let p = foldl (runTask w options repositories)
                \<lparr>changes = [], poolErr = None, closed = False, events = []\<rparr>
                (schedule w)
      in case poolErr p of
           Some err \<Rightarrow> (events p, Inl err)
         | None \<Rightarrow>
             (events p,
              Inr (sortSlice w (\<lambda>ci cj. originalTime ci < originalTime cj) (changes p))))"

text \<open>
  The insertion sort that Go's \<open>sort\<close> package runs on a short slice: each element in turn
  moves left while it is less than its left neighbour. \<open>insertLess lt x rs\<close> places \<open>x\<close>
  in the sorted part before it, which \<open>rs\<close> holds from right to left.
\<close>

fun insertLess :: "('a \<Rightarrow> 'a \<Rightarrow> bool) \<Rightarrow> 'a \<Rightarrow> 'a list \<Rightarrow> 'a list" where
  "insertLess lt x [] = [x]"
| "insertLess lt x (y # rs) =
     (if lt x y then y # insertLess lt x rs else x # y # rs)"

definition insertionSort :: "('a \<Rightarrow> 'a \<Rightarrow> bool) \<Rightarrow> 'a list \<Rightarrow> 'a list" where
  "insertionSort lt xs = rev (foldl (\<lambda>rs x. insertLess lt x rs) [] xs)"

text \<open>
  What \<open>sort.Slice\<close> promises: when \<open>lt\<close> is a strict weak ordering, the slice it leaves
  holds the same elements, and no element is \<open>lt\<close> than one before it. It promises no order
  between elements that \<open>lt\<close> does not tell apart.
\<close>

definition strictWeakOrder :: "('a \<Rightarrow> 'a \<Rightarrow> bool) \<Rightarrow> bool" where
  "strictWeakOrder lt =
     ((\<forall>a. \<not> lt a a) \<and>
      (\<forall>a b c. lt a b \<and> lt b c \<longrightarrow> lt a c) \<and>
      (\<forall>a b c. \<not> lt a b \<and> \<not> lt b c \<longrightarrow> \<not> lt a c))"

definition sortsSlices :: "(('a \<Rightarrow> 'a \<Rightarrow> bool) \<Rightarrow> 'a list \<Rightarrow> 'a list) \<Rightarrow> bool" where
  "sortsSlices srt =
     (\<forall>lt xs. strictWeakOrder lt \<longrightarrow>
        mset (srt lt xs) = mset xs \<and> sorted_wrt (\<lambda>a b. \<not> lt b a) (srt lt xs))"

text \<open>
  Two notions to state the claims with: the list that the task of repository \<open>i\<close> appends
  to \<open>changes\<close> (nothing when the task returns an error), and the answer of the GitHub
  client to the request that this task makes.
\<close>

definition taskChanges :: "world \<Rightarrow> ProcessOptions \<Rightarrow> string list \<Rightarrow> nat \<Rightarrow> Change list" where
  "taskChanges w options repositories i =
     (case snd (task w options repositories i) of Inl err \<Rightarrow> [] | Inr change \<Rightarrow> change)"

definition fetchAnswer ::
  "world \<Rightarrow> ProcessOptions \<Rightarrow> string list \<Rightarrow> nat \<Rightarrow> error + RepositoryCommit list" where
  "fetchAnswer w options repositories i =
     (case parseRepositoryOrgName (repositories ! i) of
        (organization, name, ok) \<Rightarrow>
          ListCommits w organization name
            \<lparr>SHA = BranchName options, ListSince = Now w i + sint (- Since options)\<rparr>)"

section \<open>Repository reference resolver\<close>

definition sourceLocationKey :: string where
  "sourceLocationKey = ''io.openshift.build.source-location''"

text \<open>The inner loop: is \<open>sourceLocation\<close> among the repositories collected so far?\<close>

fun hasRepository :: "string \<Rightarrow> string list \<Rightarrow> bool" where
  "hasRepository sourceLocation [] = False"
| "hasRepository sourceLocation (r # rs) =
     (if sourceLocation = r then True else hasRepository sourceLocation rs)"

fun tagLoop :: "string list \<Rightarrow> Tag list \<Rightarrow> string list" where
  "tagLoop repositories [] = repositories"
| "tagLoop repositories (t # ts) =
     (case Annotations t sourceLocationKey of
        None \<Rightarrow> tagLoop repositories ts
      | Some sourceLocation \<Rightarrow>
          if length sourceLocation = 0 then tagLoop repositories ts
          else if \<not> hasRepository sourceLocation repositories
            then tagLoop (repositories @ [sourceLocation]) ts
            else tagLoop repositories ts)"

text \<open>
  \<open>oc payload\<close> is the outcome of the subprocess \<open>oc adm release info\<close> for the payload
  (its output, or the error of \<open>CombinedOutput\<close>), and \<open>unmarshal\<close> is \<open>json.Unmarshal\<close>
  into a \<open>Release\<close>.
\<close>

definition getRepositoriesFromPayload ::
  "(string \<Rightarrow> error + string) \<Rightarrow> (string \<Rightarrow> error + Release) \<Rightarrow> string \<Rightarrow> error + string list" where
  "getRepositoriesFromPayload oc unmarshal payload =
     (case oc payload of
        Inl err \<Rightarrow> Inl err
      | Inr out \<Rightarrow>
          (case unmarshal out of
             Inl err \<Rightarrow> Inl err
           | Inr release \<Rightarrow> Inr (tagLoop [] (Tags (Spec (Refs release))))))"

text \<open>
  The specification's words for the list of repository references, to compare the loop
  with: every value at its first occurrence, the later duplicates dropped.
\<close>

fun firstOccurrences :: "'a list \<Rightarrow> 'a list" where
  "firstOccurrences [] = []"
| "firstOccurrences (x # xs) = x # firstOccurrences (removeAll x xs)"

text \<open>
  A payload to compute with, after the specification's example: the locations \<open>A\<close>, \<open>B\<close>
  and \<open>A\<close> again, a tag without annotations and a tag with an empty location.
\<close>

definition exampleRelease :: Release where
  "exampleRelease =
     \<lparr>Refs = \<lparr>Spec = \<lparr>Tags =
        [\<lparr>Name = ''cli'', Annotations = [sourceLocationKey \<mapsto> ''A'']\<rparr>,
         \<lparr>Name = ''base'', Annotations = Map.empty\<rparr>,
         \<lparr>Name = ''console'', Annotations = [sourceLocationKey \<mapsto> ''B'']\<rparr>,
         \<lparr>Name = ''pod'', Annotations = [sourceLocationKey \<mapsto> []]\<rparr>,
         \<lparr>Name = ''oc'', Annotations = [''other'' \<mapsto> ''C'', sourceLocationKey \<mapsto> ''A'']\<rparr>]\<rparr>\<rparr>\<rparr>"

section \<open>A run to compute with\<close>

text \<open>
  Three repositories, a client that does not find \<open>console\<close>, a clock that ticks
  by a second between the tasks, a look back of 24 hours, insertion sort for \<open>sort.Slice\<close>,
  and a pool that ends the third task first, then the first, then the second.
\<close>

definition exampleOptions :: ProcessOptions where
  "exampleOptions = \<lparr>Concurrency = 10, Since = 86400000000000, BranchName = ''master''\<rparr>"

definition exampleClient :: client where
  "exampleClient organization name opts =
     (if name = ''origin'' then
        Inr [\<lparr>HTMLURL = ''https://github.com/openshift/origin/commit/1'',
               CommitMessage = ''Merge pull request #1 from fork/fix'',
               CommitterDate = 1699999000000000000\<rparr>,
             \<lparr>HTMLURL = ''https://github.com/openshift/origin/commit/2'',
               CommitMessage = ''fix the bug'',
               CommitterDate = 1699998000000000000\<rparr>]
      else if name = ''installer'' then
        Inr [\<lparr>HTMLURL = ''https://github.com/openshift/installer/commit/3'',
               CommitMessage = ''bump the version'',
               CommitterDate = 1699999500000000000\<rparr>,
             \<lparr>HTMLURL = ''https://github.com/openshift/installer/commit/4'',
               CommitMessage = ''add a flag'',
               CommitterDate = 1699997000000000000\<rparr>]
      else Inl (External ''404 Not Found''))"

definition exampleWorld :: world where
  "exampleWorld =
     \<lparr>ListCommits = exampleClient,
       Now = (\<lambda>i. 1700000000000000000 + 1000000000 * int i),
       humanizeTime = (\<lambda>t. ''a while ago''),
       sortSlice = insertionSort,
       schedule = [2, 0, 1]\<rparr>"

definition exampleRepositories :: "string list" where
  "exampleRepositories =
     [''https://github.com/openshift/origin'',
      ''https://github.com/openshift/console'',
      ''https://github.com/openshift/installer'']"

text \<open>The same list with a second reference that is no \<open>https://github.com/\<close> URL.\<close>

definition brokenRepositories :: "string list" where
  "brokenRepositories =
     [''https://github.com/openshift/origin'',
      ''git@github.com:openshift/console.git'',
      ''https://github.com/openshift/installer'']"

text \<open>
  A list whose second reference is no \<open>https://github.com/\<close> URL and whose third
  repository the client does not find.
\<close>

definition mixedRepositories :: "string list" where
  "mixedRepositories =
     [''https://github.com/openshift/origin'',
      ''git@github.com:openshift/installer.git'',
      ''https://github.com/openshift/console'']"

text \<open>The changes of the run, oldest first.\<close>

definition exampleChanges :: "Change list" where
  "exampleChanges =
     [\<lparr>URL = ''https://github.com/openshift/installer/commit/4'', Message = ''add a flag'',
        Time = ''a while ago'', repository = ''https://github.com/openshift/installer'',
        originalTime = 1699997000000000000\<rparr>,
      \<lparr>URL = ''https://github.com/openshift/origin/commit/2'', Message = ''fix the bug'',
        Time = ''a while ago'', repository = ''https://github.com/openshift/origin'',
        originalTime = 1699998000000000000\<rparr>,
      \<lparr>URL = ''https://github.com/openshift/installer/commit/3'', Message = ''bump the version'',
        Time = ''a while ago'', repository = ''https://github.com/openshift/installer'',
        originalTime = 1699999500000000000\<rparr>]"

section \<open>Facts about the string functions\<close>


lemma HasPrefix_prefix: "HasPrefix s pre \<longleftrightarrow> prefix pre s"
  by (auto simp: HasPrefix_def prefix_def) (metis append_take_drop_id)

lemma IndexByte_None: "IndexByte s c = None \<longleftrightarrow> c \<notin> set s"
  by (induction s) auto

lemma Split_Nil: "Split [] c = [[]]"
  by (simp add: Split.simps)

lemma Split_Cons:
  "Split (x # s) c =
     (if x = c then [] # Split s c else (x # hd (Split s c)) # tl (Split s c))"
  by (subst Split.simps, subst (3 4) Split.simps)
     (auto split: option.splits)

lemma Split_not_Nil: "Split s c \<noteq> []"
  by (subst Split.simps) (simp split: option.splits)

lemma Split_no_sep: "p \<in> set (Split s c) \<Longrightarrow> c \<notin> set p"
proof (induction s arbitrary: p)
  case Nil
  then show ?case by (simp add: Split_Nil)
next
  case (Cons x s)
  have ne: "Split s c \<noteq> []" by (rule Split_not_Nil)
  show ?case
  proof (cases "x = c")
    case True
    with Cons show ?thesis by (auto simp: Split_Cons)
  next
    case False
    from Cons.prems False have "p = x # hd (Split s c) \<or> p \<in> set (tl (Split s c))"
      by (simp add: Split_Cons)
    then show ?thesis
    proof
      assume "p = x # hd (Split s c)"
      moreover have "c \<notin> set (hd (Split s c))"
        using Cons.IH [of "hd (Split s c)"] ne by simp
      ultimately show ?thesis using False by auto
    next
      assume "p \<in> set (tl (Split s c))"
      then have "p \<in> set (Split s c)" using ne by (meson list.set_sel(2))
      then show ?thesis by (rule Cons.IH)
    qed
  qed
qed

lemma Join_Split: "Join (Split s c) [c] = s"
proof (induction s)
  case Nil
  then show ?case by (simp add: Split_Nil)
next
  case (Cons x s)
  obtain p ps where sp: "Split s c = p # ps"
    using Split_not_Nil [of s c] by (cases "Split s c") auto
  with Cons show ?case
    by (cases ps) (auto simp: Split_Cons)
qed

lemma Split_no_sep_id: "c \<notin> set s \<Longrightarrow> Split s c = [s]"
  by (subst Split.simps) (simp add: IndexByte_None [THEN iffD2])

lemma Split_append_sep:
  "c \<notin> set p \<Longrightarrow> Split (p @ c # s) c = p # Split s c"
  by (induction p) (auto simp: Split_Cons)

lemma Split_Join:
  "xs \<noteq> [] \<Longrightarrow> \<forall>x \<in> set xs. c \<notin> set x \<Longrightarrow> Split (Join xs [c]) c = xs"
proof (induction xs "[c]" rule: Join.induct)
  case 1
  then show ?case by simp
next
  case (2 x)
  then show ?case by (simp add: Split_no_sep_id)
next
  case (3 x y ys)
  then show ?case by (simp add: Split_append_sep)
qed

lemma Contains_sublist: "Contains s sub \<longleftrightarrow> sublist sub s"
  by (induction s) (auto simp: HasPrefix_prefix sublist_Cons_right)

lemma spaceRunes_not_Nil: "q \<in> set spaceRunes \<Longrightarrow> q \<noteq> []"
  by (auto simp: spaceRunes_def)

lemma leadingSpace_Some: "leadingSpace s = Some q \<Longrightarrow> q \<in> set spaceRunes \<and> prefix q s"
  by (auto simp: leadingSpace_def find_Some_iff)

lemma trailingSpace_Some: "trailingSpace s = Some q \<Longrightarrow> q \<in> set spaceRunes \<and> suffix q s"
  by (auto simp: trailingSpace_def find_Some_iff)

lemma leadingSpace_None: "leadingSpace s = None \<longleftrightarrow> (\<forall>q \<in> set spaceRunes. \<not> prefix q s)"
  by (auto simp: leadingSpace_def find_None_iff)

lemma trailingSpace_None: "trailingSpace s = None \<longleftrightarrow> (\<forall>q \<in> set spaceRunes. \<not> suffix q s)"
  by (auto simp: trailingSpace_def find_None_iff)

lemma TrimLeftSpace_suffix: "suffix (TrimLeftSpace s) s"
proof (induction s rule: TrimLeftSpace.induct)
  case (1 s)
  show ?case
  proof (cases "leadingSpace s")
    case None
    then show ?thesis by (subst TrimLeftSpace.simps) simp
  next
    case (Some q)
    with 1 have "suffix (TrimLeftSpace (drop (length q) s)) (drop (length q) s)" by simp
    then have "suffix (TrimLeftSpace (drop (length q) s)) s"
      by (rule suffix_order.trans) (rule suffix_drop)
    with Some show ?thesis by (subst TrimLeftSpace.simps) simp
  qed
qed

lemma TrimLeftSpace_leading: "leadingSpace (TrimLeftSpace s) = None"
proof (induction s rule: TrimLeftSpace.induct)
  case (1 s)
  show ?case
  proof (cases "leadingSpace s")
    case None
    then show ?thesis by (subst TrimLeftSpace.simps) simp
  next
    case (Some q)
    with 1 show ?thesis by (subst TrimLeftSpace.simps) simp
  qed
qed

lemma TrimLeftSpace_id: "leadingSpace s = None \<Longrightarrow> TrimLeftSpace s = s"
  by (subst TrimLeftSpace.simps) simp

lemma TrimRightSpace_prefix: "prefix (TrimRightSpace s) s"
proof (induction s rule: TrimRightSpace.induct)
  case (1 s)
  show ?case
  proof (cases "trailingSpace s")
    case None
    then show ?thesis by (subst TrimRightSpace.simps) simp
  next
    case (Some q)
    with 1 have "prefix (TrimRightSpace (take (length s - length q) s)) (take (length s - length q) s)"
      by simp
    then have "prefix (TrimRightSpace (take (length s - length q) s)) s"
      by (rule prefix_order.trans) (rule take_is_prefix)
    with Some show ?thesis by (subst TrimRightSpace.simps) simp
  qed
qed

lemma TrimRightSpace_trailing: "trailingSpace (TrimRightSpace s) = None"
proof (induction s rule: TrimRightSpace.induct)
  case (1 s)
  show ?case
  proof (cases "trailingSpace s")
    case None
    then show ?thesis by (subst TrimRightSpace.simps) simp
  next
    case (Some q)
    with 1 show ?thesis by (subst TrimRightSpace.simps) simp
  qed
qed

lemma TrimRightSpace_id: "trailingSpace s = None \<Longrightarrow> TrimRightSpace s = s"
  by (subst TrimRightSpace.simps) simp

lemma TrimRightSpace_leading:
  assumes "leadingSpace s = None"
  shows "leadingSpace (TrimRightSpace s) = None"
proof -
  have "\<not> prefix q (TrimRightSpace s)" if "q \<in> set spaceRunes" for q
  proof
    assume "prefix q (TrimRightSpace s)"
    then have "prefix q s"
      using TrimRightSpace_prefix [of s] by (rule prefix_order.trans)
    with assms that show False by (simp add: leadingSpace_None)
  qed
  then show ?thesis by (simp add: leadingSpace_None)
qed

lemma TrimSpace_fixed:
  "TrimSpace s = s \<longleftrightarrow> leadingSpace s = None \<and> trailingSpace s = None"
proof
  assume eq: "TrimSpace s = s"
  have "leadingSpace (TrimSpace s) = None"
    unfolding TrimSpace_def by (rule TrimRightSpace_leading) (rule TrimLeftSpace_leading)
  moreover have "trailingSpace (TrimSpace s) = None"
    unfolding TrimSpace_def by (rule TrimRightSpace_trailing)
  ultimately show "leadingSpace s = None \<and> trailingSpace s = None"
    using eq by simp
next
  assume "leadingSpace s = None \<and> trailingSpace s = None"
  then show "TrimSpace s = s"
    by (simp add: TrimSpace_def TrimLeftSpace_id TrimRightSpace_id)
qed

lemma TrimSpace_idem: "TrimSpace (TrimSpace s) = TrimSpace s"
proof -
  have "leadingSpace (TrimSpace s) = None"
    unfolding TrimSpace_def by (rule TrimRightSpace_leading) (rule TrimLeftSpace_leading)
  moreover have "trailingSpace (TrimSpace s) = None"
    unfolding TrimSpace_def by (rule TrimRightSpace_trailing)
  ultimately show ?thesis by (simp add: TrimSpace_fixed)
qed

lemma TrimSpace_sublist: "sublist (TrimSpace s) s"
proof -
  have "sublist (TrimRightSpace (TrimLeftSpace s)) (TrimLeftSpace s)"
    using TrimRightSpace_prefix by (rule prefix_imp_sublist)
  moreover have "sublist (TrimLeftSpace s) s"
    using TrimLeftSpace_suffix by (rule suffix_imp_sublist)
  ultimately show ?thesis
    unfolding TrimSpace_def by (rule sublist_order.order_trans)
qed

lemma TrimSpace_length: "length (TrimSpace s) \<le> length s"
  using TrimSpace_sublist by (rule sublist_length_le)

lemma TrimSpace_set: "set (TrimSpace s) \<subseteq> set s"
  using TrimSpace_sublist by (rule set_mono_sublist)

lemma TrimSpace_Contains: "Contains (TrimSpace s) sub \<Longrightarrow> Contains s sub"
  unfolding Contains_sublist
  by (erule sublist_order.order_trans) (rule TrimSpace_sublist)

text \<open>No white-space rune holds a full stop.\<close>

lemma spaceRunes_no_dot: "q \<in> set spaceRunes \<Longrightarrow> CHR ''.'' \<notin> set q"
  by (auto simp: spaceRunes_def)

lemma TrimLeftSpace_dot:
  "s \<noteq> [] \<Longrightarrow> last s = CHR ''.'' \<Longrightarrow>
     TrimLeftSpace s \<noteq> [] \<and> last (TrimLeftSpace s) = CHR ''.''"
proof (induction s rule: TrimLeftSpace.induct)
  case (1 s)
  show ?case
  proof (cases "leadingSpace s")
    case None
    with 1 show ?thesis by (subst (1 2) TrimLeftSpace.simps) simp
  next
    case (Some q)
    then have q: "q \<in> set spaceRunes" and "prefix q s"
      by (auto dest: leadingSpace_Some)
    then obtain r where s: "s = q @ r" by (auto simp: prefix_def)
    have "r \<noteq> []"
    proof
      assume "r = []"
      with s 1(2,3) have "CHR ''.'' \<in> set q" by (metis append_Nil2 last_in_set)
      with q show False by (simp add: spaceRunes_no_dot)
    qed
    with s 1(3) have "drop (length q) s \<noteq> []" "last (drop (length q) s) = CHR ''.''"
      by simp_all
    with 1(1) [OF Some] Some show ?thesis by (subst (1 2) TrimLeftSpace.simps) simp
  qed
qed

lemma trailingSpace_dot: "s \<noteq> [] \<Longrightarrow> last s = CHR ''.'' \<Longrightarrow> trailingSpace s = None"
proof (rule ccontr)
  assume s: "s \<noteq> []" "last s = CHR ''.''" and "trailingSpace s \<noteq> None"
  then obtain q where q: "q \<in> set spaceRunes" and "suffix q s"
    by (auto dest: trailingSpace_Some)
  then obtain r where "s = r @ q" by (auto simp: suffix_def)
  moreover have "q \<noteq> []" using q by (rule spaceRunes_not_Nil)
  ultimately have "last q = CHR ''.''" using s by simp
  with \<open>q \<noteq> []\<close> have "CHR ''.'' \<in> set q" by (metis last_in_set)
  with q show False by (simp add: spaceRunes_no_dot)
qed

lemma TrimSpace_marker: "TrimSpace (p @ '' ...'') \<noteq> []"
proof -
  have "TrimLeftSpace (p @ '' ...'') \<noteq> [] \<and> last (TrimLeftSpace (p @ '' ...'')) = CHR ''.''"
    by (rule TrimLeftSpace_dot) simp_all
  then show ?thesis
    by (simp add: TrimSpace_def trailingSpace_dot TrimRightSpace_id)
qed

lemma sublist_append_disjoint:
  assumes "sublist xs (ys @ zs)" and "xs \<noteq> []" and "set xs \<inter> set zs = {}"
  shows "sublist xs ys"
proof -
  from assms(1) consider "sublist xs ys" | "sublist xs zs"
    | xs1 xs2 where "xs = xs1 @ xs2" "suffix xs1 ys" "prefix xs2 zs"
    by (auto simp: sublist_append)
  then show ?thesis
  proof cases
    case 1
    then show ?thesis .
  next
    case 2
    then have "set xs \<subseteq> set zs" by (rule set_mono_sublist)
    with assms(2,3) show ?thesis by (cases xs) auto
  next
    case 3
    show ?thesis
    proof (cases xs2)
      case Nil
      with 3 show ?thesis by auto
    next
      case (Cons x xs2')
      with 3 have "x \<in> set xs" "x \<in> set zs" by (auto simp: prefix_def)
      with assms(3) show ?thesis by auto
    qed
  qed
qed

lemma Contains_truncated:
  assumes "Contains (take n l @ '' ...'') ''Signed-off-by''"
  shows "Contains l ''Signed-off-by''"
proof -
  have "sublist ''Signed-off-by'' (take n l)"
    using assms unfolding Contains_sublist
    by (rule sublist_append_disjoint) simp_all
  then show ?thesis
    unfolding Contains_sublist using sublist_take by (rule sublist_order.order_trans)
qed

section \<open>Facts about the sanitizer\<close>

lemma characters_le_length: "characters s \<le> length s"
  by (simp add: characters_def)

lemma sanitizeLoop_eq:
  "sanitizeLoop r ls =
     r @ map (\<lambda>l. TrimSpace (if 80 < length l then take 80 l @ '' ...'' else l))
           (filter (\<lambda>l. \<not> (Contains l ''Signed-off-by'' \<or> length (TrimSpace l) = 0)) ls)"
  by (induction ls arbitrary: r) (simp_all add: Let_def)

lemma sanitizeLoop_line:
  assumes "x \<in> set (sanitizeLoop [] ls)"
  shows "\<exists>l \<in> set ls. \<not> Contains l ''Signed-off-by'' \<and> TrimSpace l \<noteq> [] \<and>
           x = TrimSpace (if 80 < length l then take 80 l @ '' ...'' else l)"
  using assms unfolding sanitizeLoop_eq by auto

lemma sanitizeLoop_line_ok:
  assumes "x \<in> set (sanitizeLoop [] ls)"
  shows "length x \<le> 84 \<and> \<not> Contains x ''Signed-off-by'' \<and> TrimSpace x \<noteq> []"
proof -
  from assms obtain l where l: "\<not> Contains l ''Signed-off-by''" "TrimSpace l \<noteq> []"
    and x: "x = TrimSpace (if 80 < length l then take 80 l @ '' ...'' else l)"
    by (blast dest: sanitizeLoop_line)
  show ?thesis
  proof (cases "80 < length l")
    case True
    with x have x': "x = TrimSpace (take 80 l @ '' ...'')" by simp
    have "length x \<le> length (take 80 l @ '' ...'')"
      unfolding x' by (rule TrimSpace_length)
    then have "length x \<le> 84" by simp
    moreover have "\<not> Contains x ''Signed-off-by''"
      unfolding x' using l(1) by (blast dest: TrimSpace_Contains Contains_truncated)
    moreover have "TrimSpace x \<noteq> []"
      unfolding x' TrimSpace_idem by (rule TrimSpace_marker)
    ultimately show ?thesis by simp
  next
    case False
    with x have x': "x = TrimSpace l" by simp
    have "length x \<le> length l" unfolding x' by (rule TrimSpace_length)
    with False have "length x \<le> 84" by simp
    moreover have "\<not> Contains x ''Signed-off-by''"
      unfolding x' using l(1) by (blast dest: TrimSpace_Contains)
    moreover have "TrimSpace x \<noteq> []"
      unfolding x' TrimSpace_idem by (rule l(2))
    ultimately show ?thesis by simp
  qed
qed

lemma sanitizeLoop_no_newline:
  assumes "x \<in> set (sanitizeLoop [] (Split msg CHR 0x0A))"
  shows "CHR 0x0A \<notin> set x"
proof -
  from assms obtain l where l: "l \<in> set (Split msg CHR 0x0A)"
    and x: "x = TrimSpace (if 80 < length l then take 80 l @ '' ...'' else l)"
    by (blast dest: sanitizeLoop_line)
  from l have nl: "CHR 0x0A \<notin> set l" by (rule Split_no_sep)
  then have "CHR 0x0A \<notin> set (take 80 l)" by (blast dest: in_set_takeD)
  then have "CHR 0x0A \<notin> set (if 80 < length l then take 80 l @ '' ...'' else l)"
    using nl by simp
  then show ?thesis
    unfolding x using TrimSpace_set by blast
qed

lemma Split_sanitizeMessage:
  "sanitizeLoop [] (Split msg CHR 0x0A) \<noteq> [] \<Longrightarrow>
     Split (sanitizeMessage msg) CHR 0x0A = sanitizeLoop [] (Split msg CHR 0x0A)"
  unfolding sanitizeMessage_def
  by (rule Split_Join) (auto dest: sanitizeLoop_no_newline)

lemma Join_Nil_iff: "\<forall>x \<in> set xs. x \<noteq> [] \<Longrightarrow> Join xs sep = [] \<longleftrightarrow> xs = []"
  by (induction xs sep rule: Join.induct) auto

lemma sanitizeMessage_Nil_iff:
  "sanitizeMessage msg = [] \<longleftrightarrow> sanitizeLoop [] (Split msg CHR 0x0A) = []"
proof -
  have "\<forall>x \<in> set (sanitizeLoop [] (Split msg CHR 0x0A)). x \<noteq> []"
  proof
    fix x assume "x \<in> set (sanitizeLoop [] (Split msg CHR 0x0A))"
    then have "TrimSpace x \<noteq> []" by (blast dest: sanitizeLoop_line_ok)
    then show "x \<noteq> []" using TrimSpace_length [of x] by auto
  qed
  then show ?thesis unfolding sanitizeMessage_def by (rule Join_Nil_iff)
qed

text \<open>
  A message comes back unchanged when no line of it contains \<open>Signed-off-by\<close>, no line is
  white space only, every line is at most 80 bytes long and no line has white space around
  it; so does the empty message.
\<close>

lemma sanitizeMessage_sanitized:
  assumes "msg \<noteq> [] \<longrightarrow>
     (\<forall>l \<in> set (Split msg CHR 0x0A).
        \<not> Contains l ''Signed-off-by'' \<and> TrimSpace l \<noteq> [] \<and> length l \<le> 80 \<and> TrimSpace l = l)"
  shows "sanitizeMessage msg = msg"
proof (cases "msg = []")
  case True
  have "sanitizeMessage [] = []" by code_simp
  with True show ?thesis by simp
next
  case False
  with assms have a: "\<forall>l \<in> set (Split msg CHR 0x0A).
        \<not> Contains l ''Signed-off-by'' \<and> TrimSpace l \<noteq> [] \<and> length l \<le> 80 \<and> TrimSpace l = l"
    by blast
  have f: "filter (\<lambda>l. \<not> (Contains l ''Signed-off-by'' \<or> length (TrimSpace l) = 0))
      (Split msg CHR 0x0A) = Split msg CHR 0x0A"
  proof (intro filter_True ballI)
    fix l assume "l \<in> set (Split msg CHR 0x0A)"
    with a have "\<not> Contains l ''Signed-off-by''" and "TrimSpace l \<noteq> []" by blast+
    then show "\<not> (Contains l ''Signed-off-by'' \<or> length (TrimSpace l) = 0)" by simp
  qed
  have "map (\<lambda>l. TrimSpace (if 80 < length l then take 80 l @ '' ...'' else l))
      (Split msg CHR 0x0A) = Split msg CHR 0x0A"
  proof (intro map_idI)
    fix l assume "l \<in> set (Split msg CHR 0x0A)"
    with a have "length l \<le> 80" and "TrimSpace l = l" by blast+
    then show "TrimSpace (if 80 < length l then take 80 l @ '' ...'' else l) = l" by simp
  qed
  with f have "sanitizeLoop [] (Split msg CHR 0x0A) = Split msg CHR 0x0A"
    by (simp add: sanitizeLoop_eq)
  then show ?thesis by (simp add: sanitizeMessage_def Join_Split)
qed

lemma sanitizeMessage_sanitized_example:
  "list_all (\<lambda>l. \<not> Contains l ''Signed-off-by'' \<and> TrimSpace l \<noteq> [] \<and> length l \<le> 80 \<and>
        TrimSpace l = l)
      (Split (''fix the bug'' @ [CHR 0x0A] @ ''second line'') CHR 0x0A)
   \<and> sanitizeMessage (''fix the bug'' @ [CHR 0x0A] @ ''second line'')
       = ''fix the bug'' @ [CHR 0x0A] @ ''second line''"
proof -
  have h: "list_all (\<lambda>l. \<not> Contains l ''Signed-off-by'' \<and> TrimSpace l \<noteq> [] \<and> length l \<le> 80 \<and>
        TrimSpace l = l)
      (Split (''fix the bug'' @ [CHR 0x0A] @ ''second line'') CHR 0x0A)"
    by code_simp
  then have "sanitizeMessage (''fix the bug'' @ [CHR 0x0A] @ ''second line'')
       = ''fix the bug'' @ [CHR 0x0A] @ ''second line''"
    by (intro sanitizeMessage_sanitized impI) (simp only: list_all_iff)
  with h show ?thesis by (simp only: simp_thms)
qed

section \<open>Facts about sorting\<close>

lemma mset_insertLess: "mset (insertLess lt x rs) = add_mset x (mset rs)"
  by (induction rs) auto

lemma set_insertLess: "set (insertLess lt x rs) = insert x (set rs)"
  by (induction rs) auto

lemma sorted_insertLess:
  assumes "strictWeakOrder lt" and "sorted_wrt (\<lambda>a b. \<not> lt a b) rs"
  shows "sorted_wrt (\<lambda>a b. \<not> lt a b) (insertLess lt x rs)"
  using assms(2)
proof (induction rs)
  case Nil
  then show ?case by simp
next
  case (Cons y rs)
  from assms(1) have asym: "\<And>a b. lt a b \<Longrightarrow> \<not> lt b a"
    and inc: "\<And>a b c. \<not> lt a b \<Longrightarrow> \<not> lt b c \<Longrightarrow> \<not> lt a c"
    unfolding strictWeakOrder_def by blast+
  show ?case
  proof (cases "lt x y")
    case True
    with Cons asym show ?thesis by (auto simp: set_insertLess)
  next
    case False
    with Cons inc show ?thesis by auto
  qed
qed

text \<open>Insertion sort keeps the promise of \<open>sort.Slice\<close>.\<close>

lemma insertionSort_sorts: "sortsSlices insertionSort"
proof -
  have m: "mset (foldl (\<lambda>rs x. insertLess lt x rs) acc xs) = mset acc + mset xs"
    for lt :: "'a \<Rightarrow> 'a \<Rightarrow> bool" and acc xs
    by (induction xs arbitrary: acc) (simp_all add: mset_insertLess)
  have s: "sorted_wrt (\<lambda>a b. \<not> lt a b) (foldl (\<lambda>rs x. insertLess lt x rs) acc xs)"
    if "strictWeakOrder lt" "sorted_wrt (\<lambda>a b. \<not> lt a b) acc"
    for lt :: "'a \<Rightarrow> 'a \<Rightarrow> bool" and acc xs
    using that(2)
    by (induction xs arbitrary: acc) (simp_all add: sorted_insertLess [OF that(1)])
  show ?thesis
    unfolding sortsSlices_def insertionSort_def
    using m s by (auto simp: sorted_wrt_rev)
qed

section \<open>Facts about the aggregator\<close>

lemma task_unparsable:
  assumes "\<not> snd (snd (parseRepositoryOrgName (repositories ! i)))"
  shows "task w options repositories i = ([], Inl (UnableToParse (repositories ! i)))"
  using assms
  by (cases "parseRepositoryOrgName (repositories ! i)")
     (simp add: task_def getRepositoryChanges_def)

lemma task_parsable:
  assumes "parseRepositoryOrgName (repositories ! i) = (org, name, True)"
  shows "task w options repositories i =
     (case fetchAnswer w options repositories i of
        Inl err \<Rightarrow>
          ([ListCommitsCall org name
              \<lparr>SHA = BranchName options, ListSince = Now w i + sint (- Since options)\<rparr>,
            LogPrintf (repositories ! i) err], Inr [])
      | Inr commits \<Rightarrow>
          ([ListCommitsCall org name
              \<lparr>SHA = BranchName options, ListSince = Now w i + sint (- Since options)\<rparr>],
           Inr (changeLoop (humanizeTime w) (repositories ! i) [] commits)))"
  using assms
  by (simp add: task_def getRepositoryChanges_def fetchAnswer_def Let_def split: sum.splits)

lemma task_Inl:
  assumes "snd (task w options repositories i) = Inl e"
  shows "\<not> snd (snd (parseRepositoryOrgName (repositories ! i))) \<and> e = UnableToParse (repositories ! i)"
proof (cases "parseRepositoryOrgName (repositories ! i)")
  case (fields org name ok)
  show ?thesis
  proof (cases ok)
    case True
    with fields assms show ?thesis
      by (simp add: task_parsable split: sum.splits)
  next
    case False
    with fields assms show ?thesis
      by (simp add: task_unparsable)
  qed
qed

lemma task_Inr:
  assumes "snd (snd (parseRepositoryOrgName (repositories ! i)))"
  shows "snd (task w options repositories i) = Inr (taskChanges w options repositories i)"
proof (cases "parseRepositoryOrgName (repositories ! i)")
  case (fields org name ok)
  with assms have "parseRepositoryOrgName (repositories ! i) = (org, name, True)" by simp
  then show ?thesis
    by (simp add: task_parsable taskChanges_def split: sum.splits)
qed

lemma task_fetch_failed:
  assumes "snd (snd (parseRepositoryOrgName (repositories ! i)))"
    and "isl (fetchAnswer w options repositories i)"
  shows "taskChanges w options repositories i = []"
proof (cases "parseRepositoryOrgName (repositories ! i)")
  case (fields org name ok)
  with assms(1) have "parseRepositoryOrgName (repositories ! i) = (org, name, True)" by simp
  with assms(2) show ?thesis
    by (auto simp: task_parsable taskChanges_def isl_def)
qed

lemma task_call:
  assumes "ListCommitsCall org name opts \<in> set (fst (task w options repositories i))"
  shows "parseRepositoryOrgName (repositories ! i) = (org, name, True) \<and>
         opts = \<lparr>SHA = BranchName options, ListSince = Now w i + sint (- Since options)\<rparr>"
proof (cases "parseRepositoryOrgName (repositories ! i)")
  case (fields org' name' ok)
  show ?thesis
  proof (cases ok)
    case True
    with fields assms show ?thesis
      by (auto simp: task_parsable split: sum.splits)
  next
    case False
    with fields assms show ?thesis
      by (simp add: task_unparsable)
  qed
qed

lemma runTask_closed: "closed p \<Longrightarrow> runTask w options repositories p i = p"
  by (simp add: runTask_def)

lemma foldl_runTask_closed:
  "closed p \<Longrightarrow> foldl (runTask w options repositories) p sched = p"
  by (induction sched) (simp_all add: runTask_closed)

lemma foldl_runTask_ok:
  assumes "\<not> closed p"
    and "\<forall>i \<in> set sched. snd (snd (parseRepositoryOrgName (repositories ! i)))"
  shows "foldl (runTask w options repositories) p sched =
     p\<lparr>changes := changes p @ concat (map (taskChanges w options repositories) sched),
       events := events p @ concat (map (\<lambda>i. fst (task w options repositories i)) sched)\<rparr>"
  using assms
proof (induction sched arbitrary: p)
  case Nil
  then show ?case by simp
next
  case (Cons i sched)
  from Cons.prems(2) have "snd (task w options repositories i) = Inr (taskChanges w options repositories i)"
    by (simp add: task_Inr)
  then have step: "runTask w options repositories p i =
      p\<lparr>changes := changes p @ taskChanges w options repositories i,
        events := events p @ fst (task w options repositories i)\<rparr>"
    using Cons.prems(1)
    by (cases "task w options repositories i") (simp add: runTask_def)
  have "\<not> closed (runTask w options repositories p i)"
    using Cons.prems(1) by (simp add: step)
  with Cons.IH [of "runTask w options repositories p i"] Cons.prems(2)
  show ?case by (simp add: step)
qed

lemma foldl_runTask_error:
  assumes "\<not> closed p" and "poolErr p = None"
    and "\<exists>i \<in> set sched. \<not> snd (snd (parseRepositoryOrgName (repositories ! i)))"
  shows "\<exists>i \<in> set sched. \<not> snd (snd (parseRepositoryOrgName (repositories ! i))) \<and>
           poolErr (foldl (runTask w options repositories) p sched) =
             Some (UnableToParse (repositories ! i))"
  using assms
proof (induction sched arbitrary: p)
  case Nil
  then show ?case by simp
next
  case (Cons i sched)
  show ?case
  proof (cases "snd (snd (parseRepositoryOrgName (repositories ! i)))")
    case False
    then have step: "runTask w options repositories p i =
        p\<lparr>poolErr := Some (UnableToParse (repositories ! i)), closed := True,
          events := events p @ []\<rparr>"
      using Cons.prems(1,2) by (simp add: runTask_def task_unparsable)
    then have "closed (runTask w options repositories p i)" by simp
    then have "foldl (runTask w options repositories) (runTask w options repositories p i) sched
        = runTask w options repositories p i"
      by (rule foldl_runTask_closed)
    with step False show ?thesis by simp
  next
    case True
    then have "snd (task w options repositories i) = Inr (taskChanges w options repositories i)"
      by (rule task_Inr)
    then have step: "runTask w options repositories p i =
        p\<lparr>changes := changes p @ taskChanges w options repositories i,
          events := events p @ fst (task w options repositories i)\<rparr>"
      using Cons.prems(1)
      by (cases "task w options repositories i") (simp add: runTask_def)
    from True Cons.prems(3)
    have "\<exists>i \<in> set sched. \<not> snd (snd (parseRepositoryOrgName (repositories ! i)))" by auto
    with Cons.IH [of "runTask w options repositories p i"] Cons.prems(1,2)
    show ?thesis by (simp add: step)
  qed
qed

lemma runTask_events:
  "set (events (runTask w options repositories p i))
     \<subseteq> set (events p) \<union> set (fst (task w options repositories i))"
  by (cases "task w options repositories i") (auto simp: runTask_def split: sum.splits)

lemma foldl_runTask_events:
  "set (events (foldl (runTask w options repositories) p sched))
     \<subseteq> set (events p) \<union> (\<Union>i \<in> set sched. set (fst (task w options repositories i)))"
proof (induction sched arbitrary: p)
  case Nil
  then show ?case by simp
next
  case (Cons i sched)
  show ?case
    using Cons.IH [of "runTask w options repositories p i"]
      runTask_events [of w options repositories p i]
    by auto
qed

lemma schedule_set:
  "mset sched = mset [0..<n] \<Longrightarrow> set sched = {0..<n}"
  by (metis mset_eq_setD set_upt)

lemma mset_concat_map_perm:
  assumes "mset xs = mset ys"
  shows "mset (concat (map f xs)) = mset (concat (map f ys))"
proof -
  have "mset (concat (map f zs)) = sum_mset (image_mset (\<lambda>x. mset (f x)) (mset zs))" for zs
    by (induction zs) simp_all
  with assms show ?thesis by simp
qed

lemma concat_map_filter_empty:
  "\<forall>x \<in> set xs. \<not> P x \<longrightarrow> f x = [] \<Longrightarrow> concat (map f (filter P xs)) = concat (map f xs)"
  by (induction xs) auto

lemma originalTime_strictWeakOrder:
  "strictWeakOrder (\<lambda>ci cj. originalTime ci < originalTime cj)"
  by (auto simp: strictWeakOrder_def)

lemma processRepositories_ok:
  assumes "mset (schedule w) = mset [0..<length repositories]"
    and "\<forall>repo \<in> set repositories. snd (snd (parseRepositoryOrgName repo))"
  shows "processRepositories w options repositories =
     (concat (map (\<lambda>i. fst (task w options repositories i)) (schedule w)),
      Inr (sortSlice w (\<lambda>ci cj. originalTime ci < originalTime cj)
             (concat (map (taskChanges w options repositories) (schedule w)))))"
proof -
  from assms(1) have "set (schedule w) = {0..<length repositories}" by (rule schedule_set)
  with assms(2) have "\<forall>i \<in> set (schedule w). snd (snd (parseRepositoryOrgName (repositories ! i)))"
    by simp
  then show ?thesis
    by (simp add: processRepositories_def foldl_runTask_ok)
qed

lemma processRepositories_error:
  assumes "mset (schedule w) = mset [0..<length repositories]"
    and "\<exists>repo \<in> set repositories. \<not> snd (snd (parseRepositoryOrgName repo))"
  shows "\<exists>repo \<in> set repositories. \<not> snd (snd (parseRepositoryOrgName repo)) \<and>
           snd (processRepositories w options repositories) = Inl (UnableToParse repo)"
proof -
  from assms(1) have s: "set (schedule w) = {0..<length repositories}" by (rule schedule_set)
  from assms(2) obtain i where "i < length repositories"
    and "\<not> snd (snd (parseRepositoryOrgName (repositories ! i)))"
    by (auto simp: in_set_conv_nth)
  with s have "\<exists>i \<in> set (schedule w). \<not> snd (snd (parseRepositoryOrgName (repositories ! i)))"
    by auto
  then obtain j where j: "j \<in> set (schedule w)"
    and "\<not> snd (snd (parseRepositoryOrgName (repositories ! j)))"
    and "poolErr (foldl (runTask w options repositories)
           \<lparr>changes = [], poolErr = None, closed = False, events = []\<rparr> (schedule w))
         = Some (UnableToParse (repositories ! j))"
    using foldl_runTask_error [of "\<lparr>changes = [], poolErr = None, closed = False, events = []\<rparr>"
        "schedule w" repositories w options]
    by auto
  moreover from j s have "repositories ! j \<in> set repositories" by simp
  ultimately show ?thesis
    by (auto simp: processRepositories_def)
qed

text \<open>The negation of an \<open>int64\<close>: it wraps at \<open>math.MinInt64\<close> only.\<close>

lemma sint_neg_int64:
  fixes d :: "64 word"
  shows "sint (- d) = (if d = - (2 ^ 63) then - (2 ^ 63) else - sint d)"
proof (cases "d = - (2 ^ 63)")
  case True
  then show ?thesis by simp
next
  case False
  have "sint d \<noteq> - (2 ^ 63)"
  proof
    assume "sint d = - (2 ^ 63)"
    then have "sint d = sint (- (2 ^ 63) :: 64 word)" by simp
    then have "d = - (2 ^ 63)" by (rule signed_word_eqI)
    with False show False by simp
  qed
  moreover have "- (2 ^ 63) \<le> sint d" "sint d < 2 ^ 63"
    using sint_ge [of d] sint_lt [of d] by simp_all
  ultimately have r: "- (2 ^ 63) \<le> - sint d" "- sint d < 2 ^ 63" by simp_all
  have "sint (- d) = signed_take_bit 63 (- sint d)"
    by (simp add: sint_word_ariths)
  also have "\<dots> = - sint d"
    using r by (simp add: signed_take_bit_int_eq_self)
  finally show ?thesis using False by simp
qed

text \<open>The loop of a task makes one change of every commit that is no merge commit.\<close>

lemma changeLoop_eq:
  "changeLoop humanize repo change result =
     change @ map (\<lambda>c. \<lparr>URL = HTMLURL c, Message = sanitizeMessage (CommitMessage c),
                        Time = humanize (CommitterDate c), repository = repo,
                        originalTime = CommitterDate c\<rparr>)
                (filter (\<lambda>c. \<not> isMergeCommit c) result)"
  by (induction result arbitrary: change) simp_all

lemma taskChanges_eq:
  assumes "snd (snd (parseRepositoryOrgName (repositories ! i)))"
  shows "taskChanges w options repositories i =
     (case fetchAnswer w options repositories i of
        Inl err \<Rightarrow> []
      | Inr commits \<Rightarrow>
          map (\<lambda>c. \<lparr>URL = HTMLURL c, Message = sanitizeMessage (CommitMessage c),
                     Time = humanizeTime w (CommitterDate c), repository = repositories ! i,
                     originalTime = CommitterDate c\<rparr>)
              (filter (\<lambda>c. \<not> isMergeCommit c) commits))"
proof (cases "parseRepositoryOrgName (repositories ! i)")
  case (fields org name ok)
  with assms have "parseRepositoryOrgName (repositories ! i) = (org, name, True)" by simp
  then show ?thesis
    by (simp add: task_parsable taskChanges_def changeLoop_eq split: sum.splits)
qed

section \<open>Facts about the resolver\<close>

lemma hasRepository_set: "hasRepository sourceLocation rs \<longleftrightarrow> sourceLocation \<in> set rs"
  by (induction rs) auto

lemma set_firstOccurrences: "set (firstOccurrences xs) = set xs"
  by (induction xs rule: firstOccurrences.induct) auto

lemma distinct_firstOccurrences: "distinct (firstOccurrences xs)"
  by (induction xs rule: firstOccurrences.induct) (auto simp: set_firstOccurrences)

lemma set_map_filter:
  "set (List.map_filter f xs) = {y. \<exists>x \<in> set xs. f x = Some y}"
  by (induction xs) (auto simp: split: option.splits)

lemma tagLoop_eq:
  "tagLoop repositories ts =
     repositories @
     firstOccurrences
       (filter (\<lambda>s. s \<notin> set repositories)
          (filter (\<lambda>s. s \<noteq> []) (List.map_filter (\<lambda>t. Annotations t sourceLocationKey) ts)))"
proof (induction ts arbitrary: repositories)
  case Nil
  then show ?case by simp
next
  case (Cons t ts)
  show ?case
  proof (cases "Annotations t sourceLocationKey")
    case None
    with Cons show ?thesis by simp
  next
    case (Some v)
    show ?thesis
    proof (cases "v = [] \<or> v \<in> set repositories")
      case True
      with Some Cons show ?thesis
        by (auto simp: hasRepository_set)
    next
      case False
      define locs where "locs = filter (\<lambda>s. s \<noteq> [])
          (List.map_filter (\<lambda>t. Annotations t sourceLocationKey) ts)"
      have "tagLoop repositories (t # ts) = tagLoop (repositories @ [v]) ts"
        using False Some by (simp add: hasRepository_set)
      also have "\<dots> = (repositories @ [v]) @
          firstOccurrences (filter (\<lambda>s. s \<notin> set (repositories @ [v])) locs)"
        unfolding locs_def by (rule Cons.IH)
      also have "filter (\<lambda>s. s \<notin> set (repositories @ [v])) locs
          = removeAll v (filter (\<lambda>s. s \<notin> set repositories) locs)"
        by (induction locs) auto
      also have "(repositories @ [v]) @
          firstOccurrences (removeAll v (filter (\<lambda>s. s \<notin> set repositories) locs))
          = repositories @
            firstOccurrences (filter (\<lambda>s. s \<notin> set repositories) (v # locs))"
        using False by simp
      also have "v # locs = filter (\<lambda>s. s \<noteq> [])
          (List.map_filter (\<lambda>t. Annotations t sourceLocationKey) (t # ts))"
        using False Some by (simp add: locs_def)
      finally show ?thesis .
    qed
  qed
qed

section \<open>The claims about the URL parser\<close>

text \<open>
  C4, as the code has it. \<open>parseRepositoryOrgName\<close> succeeds exactly on the references that
  are the host prefix \<open>https://github.com/\<close> followed by two segments with one slash between
  them and none inside, and then returns the two segments; on every other input it returns
  the not-parsed result \<open>("", "", false)\<close>. It is a total function: no input makes it fail
  otherwise. Nothing asks the segments to be non-empty.
\<close>

theorem parseRepositoryOrgName_two_segments:
  "(\<exists>org name. parseRepositoryOrgName repo = (org, name, True) \<and>
       repo = githubPrefix @ org @ ''/'' @ name \<and>
       CHR ''/'' \<notin> set org \<and> CHR ''/'' \<notin> set name)
   \<or> (parseRepositoryOrgName repo = ([], [], False) \<and>
       \<not> (\<exists>org name. repo = githubPrefix @ org @ ''/'' @ name \<and>
            CHR ''/'' \<notin> set org \<and> CHR ''/'' \<notin> set name))"
proof (cases "HasPrefix repo githubPrefix")
  case False
  then have "parseRepositoryOrgName repo = ([], [], False)"
    by (simp add: parseRepositoryOrgName_def)
  moreover from False have "\<not> prefix githubPrefix repo"
    by (simp add: HasPrefix_prefix)
  ultimately show ?thesis by (auto simp: prefix_def)
next
  case True
  define rest where "rest = drop (length githubPrefix) repo"
  from True have repo: "repo = githubPrefix @ rest"
    by (auto simp: HasPrefix_prefix prefix_def rest_def)
  have tp: "TrimPrefix repo githubPrefix = rest"
    using True by (simp add: TrimPrefix_def rest_def)
  show ?thesis
  proof (cases "length (Split rest CHR ''/'') = 2")
    case two: True
    then obtain a b where ab: "Split rest CHR ''/'' = [a, b]"
      by (cases "Split rest CHR ''/''" rule: list.exhaust; simp)
         (metis length_0_conv length_Suc_conv)
    have "Join (Split rest CHR ''/'') ''/'' = rest" by (rule Join_Split)
    with ab have r: "rest = a @ ''/'' @ b" by simp
    have "CHR ''/'' \<notin> set a" "CHR ''/'' \<notin> set b"
      using Split_no_sep [of _ rest "CHR ''/''"] ab by simp_all
    moreover have "parseRepositoryOrgName repo = (a, b, True)"
      using True tp ab by (simp add: parseRepositoryOrgName_def)
    ultimately show ?thesis using repo r by blast
  next
    case nottwo: False
    have p: "parseRepositoryOrgName repo = ([], [], False)"
      using True tp nottwo by (simp add: parseRepositoryOrgName_def Let_def)
    have "\<not> (\<exists>org name. repo = githubPrefix @ org @ ''/'' @ name \<and>
            CHR ''/'' \<notin> set org \<and> CHR ''/'' \<notin> set name)"
    proof
      assume "\<exists>org name. repo = githubPrefix @ org @ ''/'' @ name \<and>
            CHR ''/'' \<notin> set org \<and> CHR ''/'' \<notin> set name"
      then obtain org name where e: "repo = githubPrefix @ org @ ''/'' @ name"
        and o: "CHR ''/'' \<notin> set org" and n: "CHR ''/'' \<notin> set name" by blast
      from e repo have "rest = org @ CHR ''/'' # name" by simp
      then have "Split rest CHR ''/'' = [org, name]"
        using o n by (simp add: Split_append_sep Split_no_sep_id)
      with nottwo show False by simp
    qed
    with p show ?thesis by blast
  qed
qed

text \<open>
  C4 as the claim words it asks for two non-empty segments. The reference
  \<open>https://github.com/openshift/\<close> splits into \<open>openshift\<close> and the empty segment, and it
  parses.
\<close>

theorem parseRepositoryOrgName_empty_segment:
  "parseRepositoryOrgName ''https://github.com/openshift/'' = (''openshift'', [], True)
   \<and> Split (TrimPrefix ''https://github.com/openshift/'' githubPrefix) CHR ''/''
       = [''openshift'', []]"
  by code_simp

section \<open>The claims about the sanitizer\<close>

text \<open>
  C5. Every line of the string that \<open>sanitizeMessage\<close> returns is at most 84 bytes long (80
  and the 4 of the marker), so at most 84 characters, does not contain \<open>Signed-off-by\<close>, and
  is not white space only (\<open>TrimSpace\<close> leaves something of it, which is the test of the
  source). When no line of the message is kept the result is the empty string, which has no
  line; otherwise the lines are the parts between the newlines.
\<close>

theorem sanitizeMessage_lines:
  assumes "sanitizeMessage msg \<noteq> []"
  shows "\<forall>l \<in> set (Split (sanitizeMessage msg) CHR 0x0A).
           length l \<le> 84 \<and> characters l \<le> 84 \<and>
           \<not> Contains l ''Signed-off-by'' \<and> TrimSpace l \<noteq> []"
proof -
  from assms have "sanitizeLoop [] (Split msg CHR 0x0A) \<noteq> []"
    by (simp add: sanitizeMessage_Nil_iff)
  then have "Split (sanitizeMessage msg) CHR 0x0A = sanitizeLoop [] (Split msg CHR 0x0A)"
    by (rule Split_sanitizeMessage)
  moreover have "characters l \<le> 84" if "length l \<le> 84" for l
    using that characters_le_length [of l] by simp
  ultimately show ?thesis by (auto dest: sanitizeLoop_line_ok)
qed

theorem sanitizeMessage_lines_witness:
  "sanitizeMessage (replicate 100 CHR ''x'' @ [CHR 0x0A] @ ''   '' @ [CHR 0x0A] @
       ''Signed-off-by: A <a@b.c>'' @ [CHR 0x0A] @ ''  fix the bug  '') \<noteq> []
   \<and> list_all (\<lambda>l. length l \<le> 84 \<and> characters l \<le> 84 \<and>
          \<not> Contains l ''Signed-off-by'' \<and> TrimSpace l \<noteq> [])
       (Split (sanitizeMessage (replicate 100 CHR ''x'' @ [CHR 0x0A] @ ''   '' @ [CHR 0x0A] @
          ''Signed-off-by: A <a@b.c>'' @ [CHR 0x0A] @ ''  fix the bug  '')) CHR 0x0A)"
proof -
  have h: "sanitizeMessage (replicate 100 CHR ''x'' @ [CHR 0x0A] @ ''   '' @ [CHR 0x0A] @
       ''Signed-off-by: A <a@b.c>'' @ [CHR 0x0A] @ ''  fix the bug  '') \<noteq> []"
    by code_simp
  show ?thesis
    using h sanitizeMessage_lines [OF h] by (simp only: list_all_iff simp_thms)
qed

text \<open>
  C6. The claim bounds the lines of a sanitized message by 80 characters, as the comment of
  the source does (\<open>trim the length of each line to 80 characters\<close>), and says that such a
  message comes back unchanged. The code measures and cuts bytes. The line \<open>wideLine\<close> has
  27 characters and meets every condition of the claim, but it has 81 bytes:
  \<open>sanitizeMessage\<close> cuts it after 80 bytes, inside the last character, and appends the
  marker, so the message does not come back unchanged and the result is no UTF-8 text.
\<close>

theorem sanitizeMessage_wide_line:
  "Split wideLine CHR 0x0A = [wideLine]
   \<and> \<not> Contains wideLine ''Signed-off-by''
   \<and> TrimSpace wideLine \<noteq> []
   \<and> TrimSpace wideLine = wideLine
   \<and> characters wideLine = 27
   \<and> length wideLine = 81
   \<and> sanitizeMessage wideLine
       = concat (replicate 26 [CHR 0xE4, CHR 0xB8, CHR 0xAD]) @ [CHR 0xE4, CHR 0xB8] @ '' ...''
   \<and> sanitizeMessage wideLine \<noteq> wideLine"
  by code_simp

text \<open>
  C10. A kept line longer than 80 is cut by byte index: the line of the result at the same
  position among the kept lines is the first 80 bytes of the line, then the marker \<open>" ..."\<close>,
  and that stripped of the white space around it. The cut can fall inside a character of
  several bytes: in the witness the line is 79 times \<open>a\<close>, then the two bytes \<open>C3 A9\<close> of
  one character, then \<open>xyz\<close>, and the result keeps the byte \<open>C3\<close> alone.
\<close>

theorem sanitizeMessage_cuts_bytes:
  assumes "kept = filter (\<lambda>l. \<not> (Contains l ''Signed-off-by'' \<or> length (TrimSpace l) = 0))
                    (Split msg CHR 0x0A)"
    and "i < length kept" and "80 < length (kept ! i)"
  shows "length (Split (sanitizeMessage msg) CHR 0x0A) = length kept \<and>
         Split (sanitizeMessage msg) CHR 0x0A ! i = TrimSpace (take 80 (kept ! i) @ '' ...'')"
proof -
  have r: "sanitizeLoop [] (Split msg CHR 0x0A) =
      map (\<lambda>l. TrimSpace (if 80 < length l then take 80 l @ '' ...'' else l)) kept"
    by (simp add: sanitizeLoop_eq assms(1))
  with assms(2) have "sanitizeLoop [] (Split msg CHR 0x0A) \<noteq> []" by auto
  then have "Split (sanitizeMessage msg) CHR 0x0A =
      map (\<lambda>l. TrimSpace (if 80 < length l then take 80 l @ '' ...'' else l)) kept"
    using r by (simp add: Split_sanitizeMessage)
  with assms(2,3) show ?thesis by simp
qed

theorem sanitizeMessage_cuts_bytes_witness:
  "filter (\<lambda>l. \<not> (Contains l ''Signed-off-by'' \<or> length (TrimSpace l) = 0))
      (Split (replicate 79 CHR ''a'' @ [CHR 0xC3, CHR 0xA9] @ ''xyz'') CHR 0x0A)
     = [replicate 79 CHR ''a'' @ [CHR 0xC3, CHR 0xA9] @ ''xyz'']
   \<and> 80 < length (replicate 79 CHR ''a'' @ [CHR 0xC3, CHR 0xA9] @ ''xyz'')
   \<and> Split (sanitizeMessage (replicate 79 CHR ''a'' @ [CHR 0xC3, CHR 0xA9] @ ''xyz'')) CHR 0x0A ! 0
       = replicate 79 CHR ''a'' @ [CHR 0xC3] @ '' ...''"
proof -
  define m where "m = replicate 79 CHR ''a'' @ [CHR 0xC3, CHR 0xA9] @ ''xyz''"
  have k: "[m] = filter (\<lambda>l. \<not> (Contains l ''Signed-off-by'' \<or> length (TrimSpace l) = 0))
      (Split m CHR 0x0A)"
    unfolding m_def by code_simp
  have i: "0 < length [m]" by simp
  have l: "80 < length ([m] ! 0)" by (simp add: m_def)
  have "Split (sanitizeMessage m) CHR 0x0A ! 0 = TrimSpace (take 80 ([m] ! 0) @ '' ...'')"
    using sanitizeMessage_cuts_bytes [OF k i l] by simp
  moreover have "TrimSpace (take 80 ([m] ! 0) @ '' ...'') = replicate 79 CHR ''a'' @ [CHR 0xC3] @ '' ...''"
    unfolding m_def by code_simp
  ultimately show ?thesis using k l by (simp add: m_def)
qed

section \<open>The claims about the fetcher and the aggregator\<close>

text \<open>
  C1, as the code has it. When some reference of the list cannot be decomposed by
  \<open>parseRepositoryOrgName\<close>, the task of that repository returns the error of
  \<open>getRepositoryChanges\<close>, the pool keeps it, \<open>wp.Wait()\<close> returns it, and
  \<open>processRepositories\<close> returns the error of an unparsable repository and no changes, in
  every order in which the pool runs the tasks.
\<close>

theorem processRepositories_unparsable_fails:
  assumes "mset (schedule w) = mset [0..<length repositories]"
    and "\<exists>repo \<in> set repositories. \<not> snd (snd (parseRepositoryOrgName repo))"
  shows "\<exists>repo \<in> set repositories. \<not> snd (snd (parseRepositoryOrgName repo)) \<and>
           snd (processRepositories w options repositories) = Inl (UnableToParse repo)"
  using assms by (rule processRepositories_error)

theorem processRepositories_unparsable_fails_witness:
  "mset (schedule exampleWorld) = mset [0..<length brokenRepositories]
   \<and> list_ex (\<lambda>repo. \<not> snd (snd (parseRepositoryOrgName repo))) brokenRepositories
   \<and> list_ex (\<lambda>repo. \<not> snd (snd (parseRepositoryOrgName repo)) \<and>
        snd (processRepositories exampleWorld exampleOptions brokenRepositories)
          = Inl (UnableToParse repo)) brokenRepositories"
proof -
  have s: "mset (schedule exampleWorld) = mset [0..<length brokenRepositories]"
    by (simp add: exampleWorld_def brokenRepositories_def upt_rec)
  have u: "\<exists>repo \<in> set brokenRepositories. \<not> snd (snd (parseRepositoryOrgName repo))"
    unfolding list_ex_iff [symmetric] by code_simp
  from processRepositories_unparsable_fails [OF s u, of exampleOptions] u s
  show ?thesis by (simp only: list_ex_iff simp_thms)
qed

text \<open>
  C1 as the claim words it says that the run succeeds with the changes of the other
  repositories. With the second reference unparsable, the first repository has a change to
  report, and the run returns the error.
\<close>

theorem processRepositories_unparsable_counterexample:
  "taskChanges exampleWorld exampleOptions brokenRepositories 0 =
     [\<lparr>URL = ''https://github.com/openshift/origin/commit/2'', Message = ''fix the bug'',
       Time = ''a while ago'', repository = ''https://github.com/openshift/origin'',
       originalTime = 1699998000000000000\<rparr>]
   \<and> snd (processRepositories exampleWorld exampleOptions brokenRepositories)
       = Inl (UnableToParse ''git@github.com:openshift/console.git'')"
  by code_simp

text \<open>
  C2, as the code has it. When the reference parses and \<open>ListCommits\<close> answers with an
  error, \<open>getRepositoryChanges\<close> makes the call, logs the repository with the error, and
  returns the empty commit sequence and no error. So in a run whose references all parse,
  with a \<open>sort.Slice\<close> that keeps its promise, \<open>processRepositories\<close> succeeds, and what it
  returns holds exactly the changes of the repositories whose fetch did not fail: for each
  of them, one change for every commit of the answer that is no merge commit, with the
  commit's URL, sanitized message, rendered and original date, and the repository.
\<close>

theorem api_error_absorbed:
  "(parseRepositoryOrgName repo = (org, name, True) \<longrightarrow>
      client org name \<lparr>SHA = BranchName options, ListSince = now + sint (- Since options)\<rparr> = Inl err \<longrightarrow>
      getRepositoryChanges client now repo options =
        ([ListCommitsCall org name \<lparr>SHA = BranchName options, ListSince = now + sint (- Since options)\<rparr>,
          LogPrintf repo err], Inr []))
   \<and> (mset (schedule w) = mset [0..<length repositories] \<longrightarrow>
      (\<forall>repo \<in> set repositories. snd (snd (parseRepositoryOrgName repo))) \<longrightarrow>
      sortsSlices (sortSlice w) \<longrightarrow>
      (\<exists>result. snd (processRepositories w options repositories) = Inr result \<and>
         mset result =
           mset (concat (map
                  (\<lambda>i. map (\<lambda>c. \<lparr>URL = HTMLURL c,
                                    Message = sanitizeMessage (CommitMessage c),
                                    Time = humanizeTime w (CommitterDate c),
                                    repository = repositories ! i,
                                    originalTime = CommitterDate c\<rparr>)
                         (filter (\<lambda>c. \<not> isMergeCommit c)
                            (projr (fetchAnswer w options repositories i))))
                  (filter (\<lambda>i. \<not> isl (fetchAnswer w options repositories i))
                     [0..<length repositories])))))"
proof (intro conjI impI)
  assume "parseRepositoryOrgName repo = (org, name, True)"
    and "client org name \<lparr>SHA = BranchName options, ListSince = now + sint (- Since options)\<rparr> = Inl err"
  then show "getRepositoryChanges client now repo options =
        ([ListCommitsCall org name \<lparr>SHA = BranchName options, ListSince = now + sint (- Since options)\<rparr>,
          LogPrintf repo err], Inr [])"
    by (simp add: getRepositoryChanges_def)
next
  let ?n = "length repositories"
  let ?f = "taskChanges w options repositories"
  let ?g = "\<lambda>i. map (\<lambda>c. \<lparr>URL = HTMLURL c,
                            Message = sanitizeMessage (CommitMessage c),
                            Time = humanizeTime w (CommitterDate c),
                            repository = repositories ! i,
                            originalTime = CommitterDate c\<rparr>)
                 (filter (\<lambda>c. \<not> isMergeCommit c)
                    (projr (fetchAnswer w options repositories i)))"
  let ?ok = "\<lambda>i. \<not> isl (fetchAnswer w options repositories i)"
  assume perm: "mset (schedule w) = mset [0..<?n]"
    and parse: "\<forall>repo \<in> set repositories. snd (snd (parseRepositoryOrgName repo))"
    and srt: "sortsSlices (sortSlice w)"
  let ?result = "sortSlice w (\<lambda>ci cj. originalTime ci < originalTime cj)
      (concat (map ?f (schedule w)))"
  have r: "snd (processRepositories w options repositories) = Inr ?result"
    using perm parse by (simp add: processRepositories_ok)
  have "mset ?result = mset (concat (map ?f (schedule w)))"
    using srt originalTime_strictWeakOrder unfolding sortsSlices_def by blast
  also have "\<dots> = mset (concat (map ?f [0..<?n]))"
    using perm by (rule mset_concat_map_perm)
  also have "concat (map ?f [0..<?n]) = concat (map ?f (filter ?ok [0..<?n]))"
    using parse by (intro concat_map_filter_empty [symmetric]) (simp add: task_fetch_failed)
  also have "map ?f (filter ?ok [0..<?n]) = map ?g (filter ?ok [0..<?n])"
  proof (rule map_cong [OF refl])
    fix i assume "i \<in> set (filter ?ok [0..<?n])"
    then have "i < ?n" and ok: "?ok i" by simp_all
    with parse have "snd (snd (parseRepositoryOrgName (repositories ! i)))" by simp
    moreover from ok obtain commits where
      "fetchAnswer w options repositories i = Inr commits"
      by (cases "fetchAnswer w options repositories i") simp_all
    ultimately show "?f i = ?g i"
      by (simp add: taskChanges_eq)
  qed
  finally show "\<exists>result. snd (processRepositories w options repositories) = Inr result \<and>
      mset result = mset (concat (map ?g (filter ?ok [0..<?n])))"
    using r by blast
qed

theorem api_error_absorbed_witness:
  "parseRepositoryOrgName ''https://github.com/openshift/console''
     = (''openshift'', ''console'', True)
   \<and> exampleClient ''openshift'' ''console''
       \<lparr>SHA = BranchName exampleOptions,
        ListSince = 1700000001000000000 + sint (- Since exampleOptions)\<rparr>
     = Inl (External ''404 Not Found'')
   \<and> getRepositoryChanges exampleClient 1700000001000000000
       ''https://github.com/openshift/console'' exampleOptions
     = ([ListCommitsCall ''openshift'' ''console''
           \<lparr>SHA = BranchName exampleOptions,
            ListSince = 1700000001000000000 + sint (- Since exampleOptions)\<rparr>,
         LogPrintf ''https://github.com/openshift/console'' (External ''404 Not Found'')],
        Inr [])
   \<and> mset (schedule exampleWorld) = mset [0..<length exampleRepositories]
   \<and> list_all (\<lambda>repo. snd (snd (parseRepositoryOrgName repo))) exampleRepositories
   \<and> sortsSlices (sortSlice exampleWorld)
   \<and> filter (\<lambda>i. \<not> isl (fetchAnswer exampleWorld exampleOptions exampleRepositories i))
       [0..<length exampleRepositories] = [0, 2]
   \<and> snd (processRepositories exampleWorld exampleOptions exampleRepositories)
       = Inr exampleChanges
   \<and> mset exampleChanges =
       mset [\<lparr>URL = ''https://github.com/openshift/origin/commit/2'',
               Message = ''fix the bug'', Time = ''a while ago'',
               repository = ''https://github.com/openshift/origin'',
               originalTime = 1699998000000000000\<rparr>,
             \<lparr>URL = ''https://github.com/openshift/installer/commit/3'',
               Message = ''bump the version'', Time = ''a while ago'',
               repository = ''https://github.com/openshift/installer'',
               originalTime = 1699999500000000000\<rparr>,
             \<lparr>URL = ''https://github.com/openshift/installer/commit/4'',
               Message = ''add a flag'', Time = ''a while ago'',
               repository = ''https://github.com/openshift/installer'',
               originalTime = 1699997000000000000\<rparr>]"
proof -
  let ?g = "\<lambda>i. map (\<lambda>c. \<lparr>URL = HTMLURL c,
                            Message = sanitizeMessage (CommitMessage c),
                            Time = humanizeTime exampleWorld (CommitterDate c),
                            repository = exampleRepositories ! i,
                            originalTime = CommitterDate c\<rparr>)
                 (filter (\<lambda>c. \<not> isMergeCommit c)
                    (projr (fetchAnswer exampleWorld exampleOptions exampleRepositories i)))"
  have a: "parseRepositoryOrgName ''https://github.com/openshift/console''
     = (''openshift'', ''console'', True)"
    by code_simp
  have b: "exampleClient ''openshift'' ''console''
       \<lparr>SHA = BranchName exampleOptions,
        ListSince = 1700000001000000000 + sint (- Since exampleOptions)\<rparr>
     = Inl (External ''404 Not Found'')"
    by (simp add: exampleClient_def)
  have s: "mset (schedule exampleWorld) = mset [0..<length exampleRepositories]"
    by (simp add: exampleWorld_def exampleRepositories_def upt_rec)
  have p: "list_all (\<lambda>repo. snd (snd (parseRepositoryOrgName repo))) exampleRepositories"
    by code_simp
  have c: "sortsSlices (sortSlice exampleWorld)"
    by (simp add: exampleWorld_def insertionSort_sorts)
  have f: "filter (\<lambda>i. \<not> isl (fetchAnswer exampleWorld exampleOptions exampleRepositories i))
       [0..<length exampleRepositories] = [0, 2]"
    by code_simp
  have r: "snd (processRepositories exampleWorld exampleOptions exampleRepositories)
      = Inr exampleChanges"
    by code_simp
  have g: "concat (map ?g [0, 2]) =
       [\<lparr>URL = ''https://github.com/openshift/origin/commit/2'',
               Message = ''fix the bug'', Time = ''a while ago'',
               repository = ''https://github.com/openshift/origin'',
               originalTime = 1699998000000000000\<rparr>,
             \<lparr>URL = ''https://github.com/openshift/installer/commit/3'',
               Message = ''bump the version'', Time = ''a while ago'',
               repository = ''https://github.com/openshift/installer'',
               originalTime = 1699999500000000000\<rparr>,
             \<lparr>URL = ''https://github.com/openshift/installer/commit/4'',
               Message = ''add a flag'', Time = ''a while ago'',
               repository = ''https://github.com/openshift/installer'',
               originalTime = 1699997000000000000\<rparr>]"
    by code_simp
  from p have p': "\<forall>repo \<in> set exampleRepositories. snd (snd (parseRepositoryOrgName repo))"
    by (simp only: list_all_iff)
  note t = api_error_absorbed [where repo = "''https://github.com/openshift/console''"
      and org = "''openshift''" and name = "''console''" and client = exampleClient
      and options = exampleOptions and now = 1700000001000000000
      and err = "External ''404 Not Found''" and w = exampleWorld
      and repositories = exampleRepositories]
  from t a b have fetch: "getRepositoryChanges exampleClient 1700000001000000000
       ''https://github.com/openshift/console'' exampleOptions
     = ([ListCommitsCall ''openshift'' ''console''
           \<lparr>SHA = BranchName exampleOptions,
            ListSince = 1700000001000000000 + sint (- Since exampleOptions)\<rparr>,
         LogPrintf ''https://github.com/openshift/console'' (External ''404 Not Found'')],
        Inr [])"
    by blast
  from t s p' c obtain result where
    "snd (processRepositories exampleWorld exampleOptions exampleRepositories) = Inr result"
    and "mset result = mset (concat (map ?g
        (filter (\<lambda>i. \<not> isl (fetchAnswer exampleWorld exampleOptions exampleRepositories i))
           [0..<length exampleRepositories])))"
    by blast
  with r f g have m: "mset exampleChanges =
       mset [\<lparr>URL = ''https://github.com/openshift/origin/commit/2'',
               Message = ''fix the bug'', Time = ''a while ago'',
               repository = ''https://github.com/openshift/origin'',
               originalTime = 1699998000000000000\<rparr>,
             \<lparr>URL = ''https://github.com/openshift/installer/commit/3'',
               Message = ''bump the version'', Time = ''a while ago'',
               repository = ''https://github.com/openshift/installer'',
               originalTime = 1699999500000000000\<rparr>,
             \<lparr>URL = ''https://github.com/openshift/installer/commit/4'',
               Message = ''add a flag'', Time = ''a while ago'',
               repository = ''https://github.com/openshift/installer'',
               originalTime = 1699997000000000000\<rparr>]"
    by (simp only: sum.inject)
  from a b fetch s p c f r m show ?thesis by (intro conjI)
qed

text \<open>
  C2 as the claim words it says that the run completes whenever a fetch fails. In the run
  over \<open>mixedRepositories\<close> the pool first runs the task of \<open>console\<close>, whose reference parses
  and whose fetch fails and is logged, then the task of \<open>origin\<close>, then the task of the
  reference that does not parse: the run returns that error and no changes.
\<close>

theorem api_error_run_counterexample:
  "parseRepositoryOrgName (mixedRepositories ! 2) = (''openshift'', ''console'', True)
   \<and> fetchAnswer exampleWorld exampleOptions mixedRepositories 2
       = Inl (External ''404 Not Found'')
   \<and> processRepositories exampleWorld exampleOptions mixedRepositories =
       ([ListCommitsCall ''openshift'' ''console''
           \<lparr>SHA = ''master'', ListSince = 1699913602000000000\<rparr>,
         LogPrintf ''https://github.com/openshift/console'' (External ''404 Not Found''),
         ListCommitsCall ''openshift'' ''origin''
           \<lparr>SHA = ''master'', ListSince = 1699913600000000000\<rparr>],
        Inl (UnableToParse ''git@github.com:openshift/installer.git''))"
  by code_simp

text \<open>
  C3. What \<open>processRepositories\<close> returns is sorted by \<open>originalTime\<close>, oldest first, and
  holds exactly the changes of the per-repository lists, each as often as they do: it is a
  permutation of their concatenation. This holds for every order in which the pool runs
  the tasks and every \<open>sort.Slice\<close> that keeps its promise, which says nothing of the order
  of changes of equal \<open>originalTime\<close>.
\<close>

theorem processRepositories_sorted:
  assumes "mset (schedule w) = mset [0..<length repositories]"
    and "sortsSlices (sortSlice w)"
    and "snd (processRepositories w options repositories) = Inr result"
  shows "sorted (map originalTime result) \<and>
         mset result =
           mset (concat (map (taskChanges w options repositories) [0..<length repositories]))"
proof -
  let ?f = "taskChanges w options repositories"
  have parse: "\<forall>repo \<in> set repositories. snd (snd (parseRepositoryOrgName repo))"
  proof (rule ccontr)
    assume "\<not> ?thesis"
    then have "\<exists>repo \<in> set repositories. \<not> snd (snd (parseRepositoryOrgName repo))" by simp
    with assms(1) obtain repo where
      "snd (processRepositories w options repositories) = Inl (UnableToParse repo)"
      by (blast dest: processRepositories_error)
    with assms(3) show False by simp
  qed
  with assms(1,3) have r: "result = sortSlice w (\<lambda>ci cj. originalTime ci < originalTime cj)
      (concat (map ?f (schedule w)))"
    by (simp add: processRepositories_ok)
  have "mset result = mset (concat (map ?f (schedule w)))"
    and s: "sorted_wrt (\<lambda>a b. \<not> originalTime b < originalTime a) result"
    unfolding r using assms(2) originalTime_strictWeakOrder unfolding sortsSlices_def by blast+
  moreover have "mset (concat (map ?f (schedule w))) = mset (concat (map ?f [0..<length repositories]))"
    using assms(1) by (rule mset_concat_map_perm)
  moreover from s have "sorted (map originalTime result)"
    by (simp add: sorted_map not_less)
  ultimately show ?thesis by simp
qed

theorem processRepositories_sorted_witness:
  "mset (schedule exampleWorld) = mset [0..<length exampleRepositories]
   \<and> sortsSlices (sortSlice exampleWorld)
   \<and> snd (processRepositories exampleWorld exampleOptions exampleRepositories) = Inr exampleChanges
   \<and> sorted (map originalTime exampleChanges)
   \<and> mset exampleChanges =
       mset (concat (map (taskChanges exampleWorld exampleOptions exampleRepositories)
              [0..<length exampleRepositories]))"
proof -
  have s: "mset (schedule exampleWorld) = mset [0..<length exampleRepositories]"
    by (simp add: exampleWorld_def exampleRepositories_def upt_rec)
  have c: "sortsSlices (sortSlice exampleWorld)"
    by (simp add: exampleWorld_def insertionSort_sorts)
  have r: "snd (processRepositories exampleWorld exampleOptions exampleRepositories)
      = Inr exampleChanges"
    by code_simp
  from processRepositories_sorted [OF s c r] s c r show ?thesis by blast
qed

text \<open>
  C8, as the code has it. Every call of \<open>ListCommits\<close> in a run asks for the branch
  \<open>options.BranchName\<close> and for the commits since a cutoff of its own: what \<open>time.Now()\<close>
  returned in the task of that repository, plus the \<open>int64\<close> negation of \<open>options.Since\<close>.
  That is the reading less \<open>options.Since\<close>, but for \<open>options.Since = math.MinInt64\<close>,
  whose negation wraps to itself: there it is the reading less \<open>2^63\<close> nanoseconds.
\<close>

theorem processRepositories_cutoff_per_fetch:
  assumes "mset (schedule w) = mset [0..<length repositories]"
    and "ListCommitsCall org name opts \<in> set (fst (processRepositories w options repositories))"
  shows "SHA opts = BranchName options \<and>
         (\<exists>i < length repositories.
            parseRepositoryOrgName (repositories ! i) = (org, name, True) \<and>
            ListSince opts = Now w i + sint (- Since options) \<and>
            ListSince opts =
              (if Since options = - (2 ^ 63) then Now w i - 2 ^ 63
               else Now w i - sint (Since options)))"
proof -
  let ?p = "foldl (runTask w options repositories)
      \<lparr>changes = [], poolErr = None, closed = False, events = []\<rparr> (schedule w)"
  have "fst (processRepositories w options repositories) = events ?p"
    by (simp add: processRepositories_def Let_def split: option.splits)
  with assms(2) have "ListCommitsCall org name opts \<in> set (events ?p)" by simp
  then obtain i where i: "i \<in> set (schedule w)"
    and "ListCommitsCall org name opts \<in> set (fst (task w options repositories i))"
    using foldl_runTask_events [of w options repositories _ "schedule w"] by fastforce
  then have p: "parseRepositoryOrgName (repositories ! i) = (org, name, True)"
    and o: "opts = \<lparr>SHA = BranchName options, ListSince = Now w i + sint (- Since options)\<rparr>"
    by (auto dest: task_call)
  from i assms(1) have n: "i < length repositories"
    by (simp add: schedule_set)
  from o have "ListSince opts = Now w i + sint (- Since options)" by simp
  moreover from this have "ListSince opts =
      (if Since options = - (2 ^ 63) then Now w i - 2 ^ 63
       else Now w i - sint (Since options))"
    by (simp add: sint_neg_int64)
  moreover from o have "SHA opts = BranchName options" by simp
  ultimately show ?thesis using p n by blast
qed

theorem processRepositories_cutoff_per_fetch_witness:
  "mset (schedule exampleWorld) = mset [0..<length exampleRepositories]
   \<and> ListCommitsCall ''openshift'' ''installer''
        \<lparr>SHA = ''master'', ListSince = 1699913602000000000\<rparr>
       \<in> set (fst (processRepositories exampleWorld exampleOptions exampleRepositories))
   \<and> SHA \<lparr>SHA = ''master'', ListSince = 1699913602000000000\<rparr> = BranchName exampleOptions
   \<and> (\<exists>i < length exampleRepositories.
         parseRepositoryOrgName (exampleRepositories ! i) = (''openshift'', ''installer'', True) \<and>
         ListSince \<lparr>SHA = ''master'', ListSince = 1699913602000000000\<rparr>
           = Now exampleWorld i + sint (- Since exampleOptions) \<and>
         ListSince \<lparr>SHA = ''master'', ListSince = 1699913602000000000\<rparr>
           = (if Since exampleOptions = - (2 ^ 63) then Now exampleWorld i - 2 ^ 63
              else Now exampleWorld i - sint (Since exampleOptions)))"
proof -
  have s: "mset (schedule exampleWorld) = mset [0..<length exampleRepositories]"
    by (simp add: exampleWorld_def exampleRepositories_def upt_rec)
  have e: "ListCommitsCall ''openshift'' ''installer''
        \<lparr>SHA = ''master'', ListSince = 1699913602000000000\<rparr>
       \<in> set (fst (processRepositories exampleWorld exampleOptions exampleRepositories))"
    by code_simp
  from processRepositories_cutoff_per_fetch [OF s e] s e show ?thesis by blast
qed

text \<open>
  At \<open>options.Since = math.MinInt64\<close> the request asks for the commits since \<open>2^63\<close>
  nanoseconds before the reading of the clock, not after it.
\<close>

lemma getRepositoryChanges_MinInt64:
  "fst (getRepositoryChanges exampleClient 1700000000000000000
          ''https://github.com/openshift/origin''
          (exampleOptions\<lparr>Since := - (2 ^ 63)\<rparr>))
     = [ListCommitsCall ''openshift'' ''origin''
          \<lparr>SHA = ''master'', ListSince = 1700000000000000000 - 2 ^ 63\<rparr>]"
  by code_simp

text \<open>
  C8 as the claim words it says that all repositories get one cutoff, taken at the start of
  the run. The clock is read in each task; when it ticks between the tasks, the three calls
  of the run carry three cutoffs.
\<close>

theorem processRepositories_cutoff_counterexample:
  "fst (processRepositories exampleWorld exampleOptions exampleRepositories) =
     [ListCommitsCall ''openshift'' ''installer''
        \<lparr>SHA = ''master'', ListSince = 1699913602000000000\<rparr>,
      ListCommitsCall ''openshift'' ''origin''
        \<lparr>SHA = ''master'', ListSince = 1699913600000000000\<rparr>,
      ListCommitsCall ''openshift'' ''console''
        \<lparr>SHA = ''master'', ListSince = 1699913601000000000\<rparr>,
      LogPrintf ''https://github.com/openshift/console'' (External ''404 Not Found'')]"
  by code_simp

section \<open>The claim about the resolver\<close>

text \<open>
  C7. For a payload that the subprocess prints and \<open>json.Unmarshal\<close> parses,
  \<open>getRepositoriesFromPayload\<close> returns the non-empty values of the annotation
  \<open>io.openshift.build.source-location\<close> of the tags, in the order of their first
  appearance and without duplicates; a tag without the key or with an empty value adds
  nothing.
\<close>

theorem getRepositoriesFromPayload_first_occurrences:
  assumes "oc payload = Inr out" and "unmarshal out = Inr release"
    and "locations = filter (\<lambda>s. s \<noteq> [])
           (List.map_filter (\<lambda>t. Annotations t sourceLocationKey) (Tags (Spec (Refs release))))"
  shows "getRepositoriesFromPayload oc unmarshal payload = Inr (firstOccurrences locations) \<and>
         distinct (firstOccurrences locations) \<and>
         set (firstOccurrences locations) =
           {s. s \<noteq> [] \<and>
               (\<exists>t \<in> set (Tags (Spec (Refs release))). Annotations t sourceLocationKey = Some s)}"
proof -
  have "getRepositoriesFromPayload oc unmarshal payload = Inr (firstOccurrences locations)"
    using assms by (simp add: getRepositoriesFromPayload_def tagLoop_eq)
  moreover have "set locations =
      {s. s \<noteq> [] \<and>
          (\<exists>t \<in> set (Tags (Spec (Refs release))). Annotations t sourceLocationKey = Some s)}"
    unfolding assms(3) by (auto simp: set_map_filter)
  ultimately show ?thesis
    by (simp add: distinct_firstOccurrences set_firstOccurrences)
qed

theorem getRepositoriesFromPayload_first_occurrences_witness:
  "filter (\<lambda>s. s \<noteq> [])
      (List.map_filter (\<lambda>t. Annotations t sourceLocationKey) (Tags (Spec (Refs exampleRelease))))
     = [''A'', ''B'', ''A'']
   \<and> firstOccurrences [''A'', ''B'', ''A''] = [''A'', ''B'']
   \<and> getRepositoriesFromPayload (\<lambda>payload. Inr ''{}'') (\<lambda>out. Inr exampleRelease)
        ''quay.io/openshift-release-dev/ocp-release:4.9.0-fc.0-x86_64''
     = Inr [''A'', ''B'']"
proof -
  have l: "[''A'', ''B'', ''A''] = filter (\<lambda>s. s \<noteq> [])
      (List.map_filter (\<lambda>t. Annotations t sourceLocationKey) (Tags (Spec (Refs exampleRelease))))"
    by code_simp
  have f: "firstOccurrences [''A'', ''B'', ''A''] = [''A'', ''B'']"
    by simp
  have "getRepositoriesFromPayload (\<lambda>payload. Inr ''{}'') (\<lambda>out. Inr exampleRelease)
        ''quay.io/openshift-release-dev/ocp-release:4.9.0-fc.0-x86_64''
     = Inr (firstOccurrences [''A'', ''B'', ''A''])"
    using getRepositoriesFromPayload_first_occurrences
      [where oc = "\<lambda>payload. Inr ''{}''" and unmarshal = "\<lambda>out. Inr exampleRelease"
        and out = "''{}''" and release = exampleRelease, OF refl refl l]
    by blast
  with l f show ?thesis by simp
qed

end
